theory Spec2Isabelle
  imports Complex_Main
begin

section \<open>Strings and the keyword counter\<close>

text \<open>
  A JavaScript string is a sequence of UTF-16 code units; \<open>length\<close> and \<open>slice\<close> count
  code units. A code unit is modelled as a natural number, a string as a list of them.
\<close>

type_synonym code_unit = nat
type_synonym jsstring = "code_unit list"

definition js :: "string \<Rightarrow> jsstring" where
  "js s = map of_char s"

text \<open>
  \<open>/\bpractice\b/gi\<close> has no \<open>u\<close> flag. The word characters of \<open>\b\<close> are then exactly
  \<open>[A-Za-z0-9_]\<close>, and case-insensitive comparison canonicalises a code unit with
  \<open>toUpperCase\<close>, except that a code unit from 128 on is never mapped below 128. Against
  the ASCII letters of the pattern only the images of ASCII code units matter, so
  \<open>canonicalize\<close> is written out for \<open>a\<close> to \<open>z\<close> and leaves every other code unit alone.
\<close>

definition isWordChar :: "code_unit \<Rightarrow> bool" where
  "isWordChar c \<longleftrightarrow>
     (48 \<le> c \<and> c \<le> 57) \<or> (65 \<le> c \<and> c \<le> 90) \<or> c = 95 \<or> (97 \<le> c \<and> c \<le> 122)"

definition canonicalize :: "code_unit \<Rightarrow> code_unit" where
  "canonicalize c = (if 97 \<le> c \<and> c \<le> 122 then c - 32 else c)"

definition practice :: jsstring where
  "practice = [112, 114, 97, 99, 116, 105, 99, 101]"

text \<open>The pattern characters against the text at the current position.\<close>

fun matchChars :: "jsstring \<Rightarrow> jsstring \<Rightarrow> bool" where
  "matchChars [] t = True"
| "matchChars (p # ps) [] = False"
| "matchChars (p # ps) (c # cs) = (canonicalize p = canonicalize c \<and> matchChars ps cs)"

text \<open>
  \<open>\b\<close> holds between two positions when exactly one side is a word character; the
  edge of the string (\<open>None\<close>) is not one.
\<close>

fun isWordAt :: "code_unit option \<Rightarrow> bool" where
  "isWordAt None = False"
| "isWordAt (Some c) = isWordChar c"

definition wordBoundary :: "code_unit option \<Rightarrow> code_unit option \<Rightarrow> bool" where
  "wordBoundary a b \<longleftrightarrow> isWordAt a \<noteq> isWordAt b"

fun charAt :: "jsstring \<Rightarrow> nat \<Rightarrow> code_unit option" where
  "charAt [] n = None"
| "charAt (c # cs) 0 = Some c"
| "charAt (c # cs) (Suc n) = charAt cs n"

text \<open>
  One attempt of the matcher at a position: \<open>prev\<close> is the code unit before the
  position, \<open>rest\<close> the text from the position on.
\<close>

definition matchAt :: "code_unit option \<Rightarrow> jsstring \<Rightarrow> bool" where
  "matchAt prev rest \<longleftrightarrow>
     wordBoundary prev (charAt rest 0) \<and> matchChars practice rest \<and>
     wordBoundary (charAt rest 7) (charAt rest 8)"

text \<open>
  \<open>String.prototype.match\<close> with the \<open>g\<close> flag: the leftmost match from the last
  index on is taken, the search resumes after its eight code units, and the result holds
  one entry for each match found.
\<close>

fun matchAll :: "code_unit option \<Rightarrow> jsstring \<Rightarrow> nat" where
  "matchAll prev [] = 0"
| "matchAll prev (c # cs) =
     (if matchAt prev (c # cs) then Suc (matchAll (charAt (c # cs) 7) (drop 7 cs))
      else matchAll (Some c) cs)"

text \<open>\<open>countPracticeInText\<close>: the number of matches, 0 when \<open>match\<close> returns null.\<close>

definition countPracticeInText :: "jsstring \<Rightarrow> nat" where
  "countPracticeInText text = matchAll None text"

text \<open>\<open>full.slice(-n)\<close>: the last \<open>n\<close> code units, the whole string when it is shorter.\<close>

definition slice_last :: "nat \<Rightarrow> jsstring \<Rightarrow> jsstring" where
  "slice_last n s = drop (length s - n) s"

section \<open>The PCM codec\<close>

text \<open>
  A JavaScript number is a double. Every value the codec computes is a sample of a
  \<open>Float32Array\<close> times \<open>32768\<close>, or a 16-bit integer divided by \<open>32768\<close>: both are exact
  in double precision, and the quotient is exact in single precision too, so a finite
  number is modelled by the real it denotes. \<open>NonFinite\<close> stands for \<open>NaN\<close> and the two
  infinities, which the codec treats alike.
\<close>

datatype number = Finite real | NonFinite

datatype error = RangeError | NotSupportedError | InvalidCharacterError | InvalidStateError

fun times32768 :: "number \<Rightarrow> number" where
  "times32768 (Finite x) = Finite (x * 32768)"
| "times32768 NonFinite = NonFinite"

definition toIntegerTrunc :: "real \<Rightarrow> int" where
  "toIntegerTrunc x = (if 0 \<le> x then \<lfloor>x\<rfloor> else \<lceil>x\<rceil>)"

definition signed16 :: "int \<Rightarrow> int" where
  "signed16 n = (let m = n mod 65536 in if 32768 \<le> m then m - 65536 else m)"

text \<open>
  Storing a number into an \<open>Int16Array\<close> element applies \<open>ToInt16\<close>: a non-finite
  number becomes \<open>0\<close>, a finite one is truncated towards zero and reduced modulo \<open>2^16\<close>
  into the signed range.
\<close>

fun toInt16 :: "number \<Rightarrow> int" where
  "toInt16 NonFinite = 0"
| "toInt16 (Finite x) = signed16 (toIntegerTrunc x)"

text \<open>
  \<open>new Uint8Array(int16.buffer)\<close> and \<open>new Int16Array(data.buffer)\<close> view the same bytes;
  the byte order is the platform's, little-endian on every platform the program runs on.
\<close>

definition int16Bytes :: "int \<Rightarrow> nat list" where
  "int16Bytes v = (let u = nat (v mod 65536) in [u mod 256, u div 256])"

fun bytesInt16 :: "nat list \<Rightarrow> int list" where
  "bytesInt16 (lo # hi # rest) = signed16 (int (lo + 256 * hi)) # bytesInt16 rest"
| "bytesInt16 rest = []"

subsection \<open>\<open>btoa\<close> and \<open>atob\<close>\<close>

definition b64char :: "nat \<Rightarrow> code_unit" where
  "b64char n =
     (if n < 26 then 65 + n else if n < 52 then 71 + n else if n < 62 then n - 4
      else if n = 62 then 43 else 47)"

definition b64index :: "code_unit \<Rightarrow> nat option" where
  "b64index c =
     (if 65 \<le> c \<and> c \<le> 90 then Some (c - 65)
      else if 97 \<le> c \<and> c \<le> 122 then Some (c - 71)
      else if 48 \<le> c \<and> c \<le> 57 then Some (c + 4)
      else if c = 43 then Some 62 else if c = 47 then Some 63 else None)"

fun b64groups :: "nat list \<Rightarrow> jsstring" where
  "b64groups [] = []"
| "b64groups [a] = [b64char (a div 4), b64char (a mod 4 * 16), 61, 61]"
| "b64groups [a, b] =
     [b64char (a div 4), b64char (a mod 4 * 16 + b div 16), b64char (b mod 16 * 4), 61]"
| "b64groups (a # b # c # rest) =
     [b64char (a div 4), b64char (a mod 4 * 16 + b div 16),
      b64char (b mod 16 * 4 + c div 64), b64char (c mod 64)] @ b64groups rest"

text \<open>\<open>btoa\<close> throws on a code unit above 255.\<close>

definition btoa :: "jsstring \<Rightarrow> error + jsstring" where
  "btoa s = (if \<exists>c \<in> set s. 255 < c then Inl InvalidCharacterError else Inr (b64groups s))"

definition isAsciiWhitespace :: "code_unit \<Rightarrow> bool" where
  "isAsciiWhitespace c \<longleftrightarrow> c = 9 \<or> c = 10 \<or> c = 12 \<or> c = 13 \<or> c = 32"

text \<open>Up to two \<open>=\<close> are removed from the end.\<close>

definition dropPadding :: "jsstring \<Rightarrow> jsstring" where
  "dropPadding d =
     (if d \<noteq> [] \<and> last d = 61
      then (let d' = butlast d in if d' \<noteq> [] \<and> last d' = 61 then butlast d' else d')
      else d)"

fun b64bytes :: "nat list \<Rightarrow> nat list" where
  "b64bytes (a # b # c # d # rest) =
     [a * 4 + b div 16, b mod 16 * 16 + c div 4, c mod 4 * 64 + d] @ b64bytes rest"
| "b64bytes [a, b, c] = [a * 4 + b div 16, b mod 16 * 16 + c div 4]"
| "b64bytes [a, b] = [a * 4 + b div 16]"
| "b64bytes rest = []"

text \<open>
  \<open>atob\<close> is the forgiving base64 decoder: ASCII whitespace is removed; when the length
  is then a multiple of four, up to two trailing \<open>=\<close> are removed; a length of one
  modulo four, or a code unit outside the alphabet, throws; the remaining bits of an
  incomplete last group are discarded.
\<close>

definition atob :: "jsstring \<Rightarrow> error + jsstring" where
  "atob s =
     (let d = filter (\<lambda>c. \<not> isAsciiWhitespace c) s;
          d = (if length d mod 4 = 0 then dropPadding d else d)
      in if length d mod 4 = 1 then Inl InvalidCharacterError
         else (case those (map b64index d) of
                 None \<Rightarrow> Inl InvalidCharacterError
               | Some sextets \<Rightarrow> Inr (b64bytes sextets)))"

subsection \<open>\<open>encode\<close>, \<open>createBlob\<close>, \<open>decode\<close>, \<open>decodeAudioData\<close>\<close>

text \<open>\<open>String.fromCharCode\<close> takes its argument modulo \<open>2^16\<close>.\<close>

definition fromCharCode :: "nat \<Rightarrow> code_unit" where
  "fromCharCode b = b mod 65536"

definition encode :: "nat list \<Rightarrow> error + jsstring" where
  "encode bytes = btoa (map fromCharCode bytes)"

record blob =
  data :: jsstring
  mimeType :: jsstring

definition createBlob :: "number list \<Rightarrow> error + blob" where
  "createBlob samples =
     (let int16 = map (\<lambda>x. toInt16 (times32768 x)) samples
      in case encode (concat (map int16Bytes int16)) of
           Inl e \<Rightarrow> Inl e
         | Inr b \<Rightarrow> Inr \<lparr>data = b, mimeType = js ''audio/pcm;rate=16000''\<rparr>)"

text \<open>Storing into a \<open>Uint8Array\<close> element reduces modulo 256.\<close>

definition decode :: "jsstring \<Rightarrow> error + nat list" where
  "decode base64 =
     (case atob base64 of Inl e \<Rightarrow> Inl e | Inr binaryString \<Rightarrow> Inr (map (\<lambda>c. c mod 256) binaryString))"

record audioBuffer =
  sampleRate :: nat
  channels :: "number list list"

text \<open>
  Reading a typed array beyond its end gives \<open>undefined\<close>, and \<open>undefined / 32768.0\<close> is
  \<open>NaN\<close>; writing beyond its end is ignored, as \<open>xs[i := v]\<close> is.
\<close>

definition sampleAt :: "int list \<Rightarrow> nat \<Rightarrow> number" where
  "sampleAt dataInt16 j =
     (if j < length dataInt16 then Finite (real_of_int (dataInt16 ! j) / 32768) else NonFinite)"

function fillChannel ::
  "int list \<Rightarrow> nat \<Rightarrow> nat \<Rightarrow> real \<Rightarrow> nat \<Rightarrow> number list \<Rightarrow> number list" where
  "fillChannel dataInt16 numChannels channel frameCount i channelData =
     (if real i < frameCount
      then fillChannel dataInt16 numChannels channel frameCount (Suc i)
             (channelData[i := sampleAt dataInt16 (i * numChannels + channel)])
      else channelData)"
  by pat_completeness auto
termination
  by (relation "measure (\<lambda>(d, n, c, fc, i, cd). nat \<lceil>fc\<rceil> - i)") (auto, linarith)

text \<open>
  \<open>new Int16Array(data.buffer)\<close> throws a \<open>RangeError\<close> on an odd number of bytes.
  \<open>createBuffer\<close> takes the frame count as an unsigned long, so a fractional count is
  truncated, and throws a \<open>NotSupportedError\<close> for no channel or no frame. It throws
  one too for a channel count or a sample rate beyond what the implementation
  supports; every implementation supports up to 32 channels and 8000 to 96000 Hz, and
  the model is that of \<open>createBuffer\<close> within these limits only. The program asks for one
  channel at 24000 Hz.
\<close>

definition decodeAudioData :: "nat list \<Rightarrow> nat \<Rightarrow> nat \<Rightarrow> error + audioBuffer" where
  "decodeAudioData bytes rate numChannels =
     (if odd (length bytes) then Inl RangeError
      else let dataInt16 = bytesInt16 bytes;
               frameCount = real (length dataInt16) / real numChannels;
               len = nat (toIntegerTrunc frameCount)
           in if numChannels = 0 \<or> len = 0 then Inl NotSupportedError
              else Inr \<lparr>sampleRate = rate,
                        channels = map (\<lambda>channel. fillChannel dataInt16 numChannels channel
                                          frameCount 0 (replicate len (Finite 0)))
                                     [0..<numChannels]\<rparr>)"

section \<open>The application state\<close>

text \<open>
  A server message, as far as \<open>onmessage\<close> reads it: the text of
  \<open>serverContent.inputTranscription\<close> when that is present, \<open>serverContent.turnComplete\<close>,
  and \<open>serverContent.modelTurn.parts[0].inlineData.data\<close> when that chain is present. A
  transcription is taken to carry its text, a string, which may be empty.
\<close>

record message =
  inputTranscription :: "jsstring option"
  turnComplete :: bool
  audioData :: "jsstring option"

text \<open>
  \<open>sessionPromise\<close> is pending, with the blobs of the \<open>then\<close> callbacks that wait for it,
  or settled.
\<close>

datatype promiseState = Pending "blob list" | Fulfilled | Rejected

text \<open>
  What one call of \<open>startSession\<close> creates and what its callbacks capture: the two audio
  contexts, the microphone stream, the session promise, and the source and processor
  nodes that \<open>onopen\<close> builds. \<open>sent\<close> holds the calls of \<open>session.sendRealtimeInput\<close>,
  \<open>played\<close> the buffers whose source was started, \<open>sessionClosed\<close> whether
  \<open>session.close\<close> was called.
\<close>

record session =
  micGranted :: bool
  sessionPromise :: promiseState
  handlerInstalled :: bool
  tracksStopped :: bool
  sourceDisconnected :: bool
  processorDisconnected :: bool
  inputCtxClosed :: bool
  outputCtxClosed :: bool
  sent :: "blob list"
  played :: "audioBuffer list"
  sessionClosed :: bool

text \<open>
  The component's state and refs. A ref holds the index of the call of \<open>startSession\<close>
  whose object it points to. \<open>console\<close> holds the lines logged, \<open>rejections\<close> the errors
  thrown out of an asynchronous function.
\<close>

record app =
  isRecording :: bool
  practiceCount :: nat
  transcript :: jsstring
  error :: "jsstring option"
  sessionRef :: "nat option"
  audioContextRef :: "nat option"
  inputAudioContextRef :: "nat option"
  mediaStreamRef :: "nat option"
  processorRef :: "nat option"
  sourceRef :: "nat option"
  committedCountRef :: nat
  currentTurnTextRef :: jsstring
  sessions :: "session list"
  console :: "jsstring list"
  rejections :: "error list"

definition newSession :: "bool \<Rightarrow> session" where
  "newSession granted =
     \<lparr>micGranted = granted, sessionPromise = Pending [], handlerInstalled = False,
      tracksStopped = False, sourceDisconnected = False, processorDisconnected = False,
      inputCtxClosed = False, outputCtxClosed = False, sent = [], played = [],
      sessionClosed = False\<rparr>"

definition initial :: app where
  "initial =
     \<lparr>isRecording = False, practiceCount = 0, transcript = [], error = None,
      sessionRef = None, audioContextRef = None, inputAudioContextRef = None,
      mediaStreamRef = None, processorRef = None, sourceRef = None,
      committedCountRef = 0, currentTurnTextRef = [], sessions = [], console = [],
      rejections = []\<rparr>"

definition updSession :: "nat \<Rightarrow> (session \<Rightarrow> session) \<Rightarrow> app \<Rightarrow> app" where
  "updSession k f s = s\<lparr>sessions := (sessions s)[k := f (sessions s ! k)]\<rparr>"

definition reject :: "error \<Rightarrow> app \<Rightarrow> app" where
  "reject e s = s\<lparr>rejections := rejections s @ [e]\<rparr>"

definition setTranscript :: "(jsstring \<Rightarrow> jsstring) \<Rightarrow> app \<Rightarrow> app" where
  "setTranscript f s = s\<lparr>transcript := f (transcript s)\<rparr>"

subsection \<open>\<open>startSession\<close>\<close>

text \<open>
  \<open>getUserMedia\<close> resolves with the stream or rejects with an error whose message is
  given. The contexts are created and stored before it is awaited; the stream, the
  connection and \<open>sessionRef\<close> follow only when it resolves. The call is one step:
  \<open>getUserMedia\<close> settles before the next event is handled.
\<close>

datatype micResult = Granted | Denied jsstring

definition startSession :: "micResult \<Rightarrow> app \<Rightarrow> app" where
  "startSession r s =
     (let k = length (sessions s);
          s1 = s\<lparr>error := None, inputAudioContextRef := Some k, audioContextRef := Some k\<rparr>
      in case r of
           Granted \<Rightarrow>
             s1\<lparr>sessions := sessions s1 @ [newSession True], mediaStreamRef := Some k,
                sessionRef := Some k\<rparr>
         | Denied msg \<Rightarrow>
             s1\<lparr>sessions := sessions s1 @ [newSession False],
                console := console s1 @ [msg],
                error := Some (if msg = [] then js ''Failed to start session'' else msg),
                isRecording := False\<rparr>)"

subsection \<open>The callbacks of the connection\<close>

definition onopen :: "nat \<Rightarrow> app \<Rightarrow> app" where
  "onopen k s =
     updSession k (\<lambda>x. x\<lparr>handlerInstalled := True\<rparr>)
       (s\<lparr>console := console s @ [js ''Session connected''], isRecording := True,
          sourceRef := Some k, processorRef := Some k\<rparr>)"

text \<open>
  \<open>processor.onaudioprocess\<close>: the frame is encoded and the send is chained on the session
  promise. It runs at once on a fulfilled promise, waits on a pending one, and never
  runs on a rejected one.
\<close>

definition onaudioprocess :: "nat \<Rightarrow> number list \<Rightarrow> app \<Rightarrow> app" where
  "onaudioprocess k inputData s =
     (case createBlob inputData of
        Inl e \<Rightarrow> reject e s
      | Inr blob \<Rightarrow>
          updSession k (\<lambda>x. case sessionPromise x of
                               Pending q \<Rightarrow> x\<lparr>sessionPromise := Pending (q @ [blob])\<rparr>
                             | Fulfilled \<Rightarrow> x\<lparr>sent := sent x @ [blob]\<rparr>
                             | Rejected \<Rightarrow> x) s)"

definition connectResolved :: "nat \<Rightarrow> app \<Rightarrow> app" where
  "connectResolved k s =
     updSession k (\<lambda>x. case sessionPromise x of
                          Pending q \<Rightarrow> x\<lparr>sessionPromise := Fulfilled, sent := sent x @ q\<rparr>
                        | Fulfilled \<Rightarrow> x
                        | Rejected \<Rightarrow> x) s"

definition connectRejected :: "nat \<Rightarrow> app \<Rightarrow> app" where
  "connectRejected k s =
     updSession k (\<lambda>x. case sessionPromise x of
                          Pending q \<Rightarrow> x\<lparr>sessionPromise := Rejected\<rparr>
                        | Fulfilled \<Rightarrow> x
                        | Rejected \<Rightarrow> x) s"

text \<open>The three parts of \<open>onmessage\<close>, in the order of the source.\<close>

definition onTranscription :: "jsstring \<Rightarrow> app \<Rightarrow> app" where
  "onTranscription text s =
     (let s1 = s\<lparr>currentTurnTextRef := currentTurnTextRef s @ text\<rparr>;
          turnCount = countPracticeInText (currentTurnTextRef s1);
          s2 = s1\<lparr>practiceCount := committedCountRef s1 + turnCount\<rparr>
      in setTranscript (\<lambda>prev. slice_last 300 (prev @ text)) s2)"

definition onTurnComplete :: "app \<Rightarrow> app" where
  "onTurnComplete s =
     (let turnCount = countPracticeInText (currentTurnTextRef s)
      in s\<lparr>committedCountRef := committedCountRef s + turnCount, currentTurnTextRef := []\<rparr>)"

text \<open>
  The audio part runs for a non-empty string. An exception of \<open>decode\<close>, of the
  \<open>Int16Array\<close> constructor or of \<open>createBuffer\<close> leaves \<open>onmessage\<close> before the buffer
  source is created.
\<close>

definition onAudio :: "nat \<Rightarrow> jsstring \<Rightarrow> app \<Rightarrow> app" where
  "onAudio k audio s =
     (case decode audio of
        Inl e \<Rightarrow> reject e s
      | Inr bytes \<Rightarrow>
          (case decodeAudioData bytes 24000 1 of
             Inl e \<Rightarrow> reject e s
           | Inr audioBuffer \<Rightarrow> updSession k (\<lambda>x. x\<lparr>played := played x @ [audioBuffer]\<rparr>) s))"

definition onmessage :: "nat \<Rightarrow> message \<Rightarrow> app \<Rightarrow> app" where
  "onmessage k m s =
     (let s1 = (case inputTranscription m of Some text \<Rightarrow> onTranscription text s | None \<Rightarrow> s);
          s2 = (if turnComplete m then onTurnComplete s1 else s1)
      in case audioData m of
           Some audio \<Rightarrow> (if audio \<noteq> [] then onAudio k audio s2 else s2)
         | None \<Rightarrow> s2)"

definition onclose :: "nat \<Rightarrow> app \<Rightarrow> app" where
  "onclose k s = s\<lparr>console := console s @ [js ''Session closed''], isRecording := False\<rparr>"

definition onerror :: "nat \<Rightarrow> app \<Rightarrow> app" where
  "onerror k s =
     s\<lparr>console := console s @ [js ''Session error''],
       error := Some (js ''Connection error detected.''), isRecording := False\<rparr>"

subsection \<open>\<open>stopSession\<close>\<close>

definition stopTracks :: "app \<Rightarrow> app" where
  "stopTracks s =
     (case mediaStreamRef s of
        Some k \<Rightarrow> (updSession k (\<lambda>x. x\<lparr>tracksStopped := True\<rparr>) s)\<lparr>mediaStreamRef := None\<rparr>
      | None \<Rightarrow> s)"

definition disconnectNodes :: "app \<Rightarrow> app" where
  "disconnectNodes s =
     (case (sourceRef s, processorRef s) of
        (Some a, Some b) \<Rightarrow>
          updSession b (\<lambda>x. x\<lparr>processorDisconnected := True\<rparr>)
            (updSession a (\<lambda>x. x\<lparr>sourceDisconnected := True\<rparr>) s)
      | _ \<Rightarrow> s)"

text \<open>\<open>close\<close> on a context that is closed already rejects with an \<open>InvalidStateError\<close>.\<close>

definition closeInputContext :: "app \<Rightarrow> error + app" where
  "closeInputContext s =
     (case inputAudioContextRef s of
        Some k \<Rightarrow>
          (if inputCtxClosed (sessions s ! k) then Inl InvalidStateError
           else Inr (updSession k (\<lambda>x. x\<lparr>inputCtxClosed := True\<rparr>) s))
      | None \<Rightarrow> Inr s)"

definition closeOutputContext :: "app \<Rightarrow> error + app" where
  "closeOutputContext s =
     (case audioContextRef s of
        Some k \<Rightarrow>
          (if outputCtxClosed (sessions s ! k) then Inl InvalidStateError
           else Inr (updSession k (\<lambda>x. x\<lparr>outputCtxClosed := True\<rparr>) s))
      | None \<Rightarrow> Inr s)"

definition resetAndFlush :: "app \<Rightarrow> app" where
  "resetAndFlush s =
     (let s1 = s\<lparr>inputAudioContextRef := None, audioContextRef := None, sourceRef := None,
                 processorRef := None\<rparr>;
          s2 = s1\<lparr>committedCountRef :=
                    committedCountRef s1 + countPracticeInText (currentTurnTextRef s1)\<rparr>
      in s2\<lparr>currentTurnTextRef := [], isRecording := False\<rparr>)"

text \<open>
  \<open>stopSession\<close> with every awaited \<open>close\<close> settled before the next event is handled. A
  rejected \<open>close\<close> ends it there, with what it did so far.
\<close>

definition stopSession :: "app \<Rightarrow> app" where
  "stopSession s =
     (let s2 = disconnectNodes (stopTracks s)
      in case closeInputContext s2 of
           Inl e \<Rightarrow> reject e s2
         | Inr s3 \<Rightarrow>
             (case closeOutputContext s3 of
                Inl e \<Rightarrow> reject e s3
              | Inr s4 \<Rightarrow> resetAndFlush s4))"

subsection \<open>Runs\<close>

text \<open>
  The events the component reacts to. A callback of the connection of call \<open>k\<close> exists
  once that call has connected; the audio callback exists once \<open>onopen\<close> has installed
  it, and fires no more when its context is closed.
\<close>

datatype event =
    StartSession micResult
  | StopSession
  | ConnectResolved nat
  | ConnectRejected nat
  | OnOpen nat
  | OnMessage nat message
  | OnClose nat
  | OnError nat
  | AudioProcess nat "number list"

definition connected :: "nat \<Rightarrow> app \<Rightarrow> bool" where
  "connected k s \<longleftrightarrow> k < length (sessions s) \<and> micGranted (sessions s ! k)"

definition capturing :: "nat \<Rightarrow> app \<Rightarrow> bool" where
  "capturing k s \<longleftrightarrow>
     connected k s \<and> handlerInstalled (sessions s ! k) \<and> \<not> inputCtxClosed (sessions s ! k)"

fun step :: "event \<Rightarrow> app \<Rightarrow> app" where
  "step (StartSession r) s = startSession r s"
| "step StopSession s = stopSession s"
| "step (ConnectResolved k) s = (if connected k s then connectResolved k s else s)"
| "step (ConnectRejected k) s = (if connected k s then connectRejected k s else s)"
| "step (OnOpen k) s = (if connected k s then onopen k s else s)"
| "step (OnMessage k m) s = (if connected k s then onmessage k m s else s)"
| "step (OnClose k) s = (if connected k s then onclose k s else s)"
| "step (OnError k) s = (if connected k s then onerror k s else s)"
| "step (AudioProcess k inputData) s =
     (if capturing k s then onaudioprocess k inputData s else s)"

definition run :: "event list \<Rightarrow> app \<Rightarrow> app" where
  "run evs s = fold step evs s"

section \<open>Notions used in the statements\<close>

text \<open>
  The count in the words of the specification: a whole-word match is an occurrence of
  the keyword bounded by non-word characters or string edges, case-insensitive.
  \<open>occurrences\<close> counts the positions of the text where one starts.
\<close>

definition occursAt :: "jsstring \<Rightarrow> nat \<Rightarrow> bool" where
  "occursAt text i \<longleftrightarrow>
     i + 8 \<le> length text \<and>
     map canonicalize (take 8 (drop i text)) = map canonicalize practice \<and>
     (i = 0 \<or> \<not> isWordChar (text ! (i - 1))) \<and>
     (i + 8 = length text \<or> \<not> isWordChar (text ! (i + 8)))"

definition occurrences :: "jsstring \<Rightarrow> nat" where
  "occurrences text = length (filter (occursAt text) [0..<length text])"

text \<open>The matches at every position, without skipping over a match found.\<close>

fun occs :: "code_unit option \<Rightarrow> jsstring \<Rightarrow> nat" where
  "occs prev [] = 0"
| "occs prev (c # cs) = (if matchAt prev (c # cs) then 1 else 0) + occs (Some c) cs"

definition prevAt :: "code_unit option \<Rightarrow> jsstring \<Rightarrow> nat \<Rightarrow> code_unit option" where
  "prevAt prev t i = (if i = 0 then prev else Some (t ! (i - 1)))"

text \<open>The transcript text that a list of messages carries.\<close>

definition deltaText :: "message list \<Rightarrow> jsstring" where
  "deltaText ms = concat (map (\<lambda>m. case inputTranscription m of Some t \<Rightarrow> t | None \<Rightarrow> []) ms)"

text \<open>A message with a transcript delta only, the turn-complete message, a whole turn.\<close>

definition delta :: "jsstring \<Rightarrow> message" where
  "delta t = \<lparr>inputTranscription = Some t, turnComplete = False, audioData = None\<rparr>"

definition turnDone :: message where
  "turnDone = \<lparr>inputTranscription = None, turnComplete = True, audioData = None\<rparr>"

definition turn :: "jsstring list \<Rightarrow> message list" where
  "turn ds = map delta ds @ [turnDone]"

text \<open>The reported count, the committed count and the turn buffer.\<close>

definition counter :: "app \<Rightarrow> nat \<times> nat \<times> jsstring" where
  "counter s = (practiceCount s, committedCountRef s, currentTurnTextRef s)"

definition countInv :: "app \<Rightarrow> bool" where
  "countInv s \<longleftrightarrow>
     practiceCount s = committedCountRef s + countPracticeInText (currentTurnTextRef s)"

text \<open>The contexts that the two context refs point to exist and are open.\<close>

definition refsOpen :: "app \<Rightarrow> bool" where
  "refsOpen s \<longleftrightarrow>
     (case inputAudioContextRef s of
        Some k \<Rightarrow> k < length (sessions s) \<and> \<not> inputCtxClosed (sessions s ! k) | None \<Rightarrow> True) \<and>
     (case audioContextRef s of
        Some k \<Rightarrow> k < length (sessions s) \<and> \<not> outputCtxClosed (sessions s ! k) | None \<Rightarrow> True)"

definition outputOpen :: "app \<Rightarrow> bool" where
  "outputOpen s \<longleftrightarrow>
     (case audioContextRef s of
        Some k \<Rightarrow> k < length (sessions s) \<and> \<not> outputCtxClosed (sessions s ! k) | None \<Rightarrow> True)"

text \<open>Both \<open>close\<close> calls of \<open>stopSession\<close> when neither rejects.\<close>

definition closeContexts :: "app \<Rightarrow> app" where
  "closeContexts s =
     (let s3 = (case inputAudioContextRef s of
                  Some k \<Rightarrow> updSession k (\<lambda>x. x\<lparr>inputCtxClosed := True\<rparr>) s | None \<Rightarrow> s)
      in case audioContextRef s3 of
           Some k \<Rightarrow> updSession k (\<lambda>x. x\<lparr>outputCtxClosed := True\<rparr>) s3 | None \<Rightarrow> s3)"

text \<open>
  The six-bit groups and the padding that \<open>b64groups\<close> writes, and the bytes that
  \<open>createBlob\<close> hands to \<open>encode\<close>.
\<close>

fun b64sextets :: "nat list \<Rightarrow> nat list" where
  "b64sextets [] = []"
| "b64sextets [a] = [a div 4, a mod 4 * 16]"
| "b64sextets [a, b] = [a div 4, a mod 4 * 16 + b div 16, b mod 16 * 4]"
| "b64sextets (a # b # c # rest) =
     [a div 4, a mod 4 * 16 + b div 16, b mod 16 * 4 + c div 64, c mod 64] @ b64sextets rest"

definition b64padding :: "nat list \<Rightarrow> jsstring" where
  "b64padding bs = replicate ((3 - length bs mod 3) mod 3) 61"

definition pcmBytes :: "number list \<Rightarrow> nat list" where
  "pcmBytes samples = concat (map (\<lambda>x. int16Bytes (toInt16 (times32768 x))) samples)"

text \<open>
  A frame encoded by \<open>createBlob\<close> and decoded again by \<open>decode\<close> and \<open>decodeAudioData\<close>,
  at the rate of the capture and with one channel.
\<close>

definition roundTrip :: "number list \<Rightarrow> error + audioBuffer" where
  "roundTrip frame =
     (case createBlob frame of
        Inl e \<Rightarrow> Inl e
      | Inr b \<Rightarrow> (case decode (data b) of
                    Inl e \<Rightarrow> Inl e
                  | Inr bytes \<Rightarrow> decodeAudioData bytes 16000 1))"

text \<open>
  The conversion in the words of the specification, for comparison: a value outside
  the 16-bit range is clamped to the nearest bound.
\<close>

definition clampInt16 :: "real \<Rightarrow> int" where
  "clampInt16 y = max (- 32768) (min 32767 (toIntegerTrunc y))"

text \<open>An inbound chunk decoded as \<open>onmessage\<close> does it.\<close>

definition decodeChunk :: "jsstring \<Rightarrow> nat \<Rightarrow> nat \<Rightarrow> error + audioBuffer" where
  "decodeChunk base64 rate numChannels =
     (case decode base64 of Inl e \<Rightarrow> Inl e | Inr bytes \<Rightarrow> decodeAudioData bytes rate numChannels)"

text \<open>A message that carries audio only.\<close>

definition audioMsg :: "jsstring \<Rightarrow> message" where
  "audioMsg a = \<lparr>inputTranscription = None, turnComplete = False, audioData = Some a\<rparr>"

text \<open>
  The part of a session that belongs to the connection and to what was sent and
  played, as opposed to the local audio resources.
\<close>

definition remotePart ::
  "session \<Rightarrow> bool \<times> promiseState \<times> bool \<times> blob list \<times> audioBuffer list \<times> bool" where
  "remotePart x =
     (micGranted x, sessionPromise x, handlerInstalled x, sent x, played x, sessionClosed x)"

text \<open>The state that a completed \<open>stopSession\<close> leaves.\<close>

definition stopped :: "app \<Rightarrow> bool" where
  "stopped s \<longleftrightarrow>
     mediaStreamRef s = None \<and> sourceRef s = None \<and> processorRef s = None \<and>
     inputAudioContextRef s = None \<and> audioContextRef s = None \<and>
     currentTurnTextRef s = [] \<and> \<not> isRecording s"

text \<open>
  The sends that wait for the session promise; a session that has no audio callback
  and has sent and queued nothing; the fields that sending reads and writes.
\<close>

definition pendingSends :: "session \<Rightarrow> blob list" where
  "pendingSends x = (case sessionPromise x of Pending q \<Rightarrow> q | Fulfilled \<Rightarrow> [] | Rejected \<Rightarrow> [])"

definition quiet :: "session \<Rightarrow> bool" where
  "quiet x \<longleftrightarrow> \<not> handlerInstalled x \<and> sent x = [] \<and> pendingSends x = []"

definition sendPart :: "session \<Rightarrow> bool \<times> promiseState \<times> blob list" where
  "sendPart x = (handlerInstalled x, sessionPromise x, sent x)"

text \<open>
  The blob of a frame, and the \<open>then\<close> callback of \<open>onaudioprocess\<close> on the session
  promise.
\<close>

definition frameBlob :: "number list \<Rightarrow> blob" where
  "frameBlob frame = \<lparr>data = b64groups (pcmBytes frame), mimeType = js ''audio/pcm;rate=16000''\<rparr>"

definition chainSend :: "blob \<Rightarrow> session \<Rightarrow> session" where
  "chainSend b x =
     (case sessionPromise x of
        Pending q \<Rightarrow> x\<lparr>sessionPromise := Pending (q @ [b])\<rparr>
      | Fulfilled \<Rightarrow> x\<lparr>sent := sent x @ [b]\<rparr>
      | Rejected \<Rightarrow> x)"

text \<open>Every ref to a local audio resource points to a call of \<open>startSession\<close> made.\<close>

definition refsValid :: "app \<Rightarrow> bool" where
  "refsValid s \<longleftrightarrow>
     (case mediaStreamRef s of Some k \<Rightarrow> k < length (sessions s) | None \<Rightarrow> True) \<and>
     (case sourceRef s of Some k \<Rightarrow> k < length (sessions s) | None \<Rightarrow> True) \<and>
     (case processorRef s of Some k \<Rightarrow> k < length (sessions s) | None \<Rightarrow> True) \<and>
     (case inputAudioContextRef s of Some k \<Rightarrow> k < length (sessions s) | None \<Rightarrow> True) \<and>
     (case audioContextRef s of Some k \<Rightarrow> k < length (sessions s) | None \<Rightarrow> True)"

text \<open>
  The channel counts and sample rates that every implementation of \<open>createBuffer\<close>
  supports: up to 32 channels, 8000 to 96000 Hz.
\<close>

definition supportedParams :: "nat \<Rightarrow> nat \<Rightarrow> bool" where
  "supportedParams rate numChannels \<longleftrightarrow> numChannels \<le> 32 \<and> 8000 \<le> rate \<and> rate \<le> 96000"

declare fillChannel.simps [simp del]

section \<open>The transcript window\<close>

lemma slice_last_idem: "slice_last n (slice_last n a @ b) = slice_last n (a @ b)"
proof (cases "length a \<le> n")
  case True
  then show ?thesis by (simp add: slice_last_def)
next
  case False
  then have "length a + length b - (length a - n + n) + (length a - n) = length a + length b - n"
    by arith
  with False show ?thesis by (simp add: slice_last_def)
qed

lemma length_slice_last: "length (slice_last n s) = min n (length s)"
  by (auto simp: slice_last_def)

lemma transcript_reject [simp]: "transcript (reject e s) = transcript s"
  by (simp add: reject_def)
lemma transcript_updSession [simp]: "transcript (updSession k f s) = transcript s"
  by (simp add: updSession_def)
lemma transcript_onAudio [simp]: "transcript (onAudio k a s) = transcript s"
  by (simp add: onAudio_def split: sum.splits)
lemma transcript_onTurnComplete [simp]: "transcript (onTurnComplete s) = transcript s"
  by (simp add: onTurnComplete_def Let_def)
lemma transcript_onTranscription [simp]:
  "transcript (onTranscription t s) = slice_last 300 (transcript s @ t)"
  by (simp add: onTranscription_def Let_def setTranscript_def)

lemma transcript_onmessage:
  "transcript (onmessage k m s) =
     (case inputTranscription m of Some t \<Rightarrow> slice_last 300 (transcript s @ t) | None \<Rightarrow> transcript s)"
  by (simp add: onmessage_def Let_def split: option.splits)

lemma transcript_fold_onmessage:
  "length (transcript s) \<le> 300 \<Longrightarrow>
   transcript (fold (onmessage k) ms s) = slice_last 300 (transcript s @ deltaText ms)"
proof (induction ms arbitrary: s)
  case Nil
  then show ?case by (simp add: deltaText_def slice_last_def)
next
  case (Cons m ms)
  have "length (transcript (onmessage k m s)) \<le> 300"
    using Cons.prems by (simp add: transcript_onmessage length_slice_last split: option.splits)
  from Cons.IH [OF this] show ?case
    by (cases "inputTranscription m")
       (simp_all add: transcript_onmessage deltaText_def slice_last_idem)
qed

section \<open>Updates of one session\<close>

lemma nth_upd:
  "(xs[k := f (xs ! k)]) ! j = (if j = k \<and> k < length xs then f (xs ! k) else xs ! j)"
  by (cases "k < length xs") (auto simp: nth_list_update list_update_beyond)

lemma nth_upd_field:
  "(\<And>x. P (f x) = P x) \<Longrightarrow> P ((xs[k := f (xs ! k)]) ! j) = P (xs ! j)"
  by (simp add: nth_upd)

lemma length_sessions_updSession [simp]:
  "length (sessions (updSession k f s)) = length (sessions s)"
  by (simp add: updSession_def)

lemma fields_updSession [simp]:
  "isRecording (updSession k f s) = isRecording s"
  "practiceCount (updSession k f s) = practiceCount s"
  "error (updSession k f s) = error s"
  "sessionRef (updSession k f s) = sessionRef s"
  "audioContextRef (updSession k f s) = audioContextRef s"
  "inputAudioContextRef (updSession k f s) = inputAudioContextRef s"
  "mediaStreamRef (updSession k f s) = mediaStreamRef s"
  "processorRef (updSession k f s) = processorRef s"
  "sourceRef (updSession k f s) = sourceRef s"
  "committedCountRef (updSession k f s) = committedCountRef s"
  "currentTurnTextRef (updSession k f s) = currentTurnTextRef s"
  "console (updSession k f s) = console s"
  "rejections (updSession k f s) = rejections s"
  by (simp_all add: updSession_def)

lemma nth_updSession:
  "sessions (updSession k f s) ! j =
     (if j = k \<and> k < length (sessions s) then f (sessions s ! k) else sessions s ! j)"
  by (simp add: updSession_def nth_upd)

lemma inputCtxClosed_updSession:
  "(\<And>x. inputCtxClosed (f x) = inputCtxClosed x) \<Longrightarrow>
   inputCtxClosed (sessions (updSession k f s) ! j) = inputCtxClosed (sessions s ! j)"
  by (simp add: nth_updSession)

lemma outputCtxClosed_updSession:
  "(\<And>x. outputCtxClosed (f x) = outputCtxClosed x) \<Longrightarrow>
   outputCtxClosed (sessions (updSession k f s) ! j) = outputCtxClosed (sessions s ! j)"
  by (simp add: nth_updSession)

lemma refsOpen_updSession:
  "(\<And>x. inputCtxClosed (f x) = inputCtxClosed x) \<Longrightarrow>
   (\<And>x. outputCtxClosed (f x) = outputCtxClosed x) \<Longrightarrow>
   refsOpen (updSession k f s) = refsOpen s"
  by (simp add: refsOpen_def inputCtxClosed_updSession outputCtxClosed_updSession
           split: option.splits)

lemma refsOpen_stopTracks: "refsOpen (stopTracks s) = refsOpen s"
proof (cases "mediaStreamRef s")
  case None
  then show ?thesis by (simp add: stopTracks_def)
next
  case (Some k)
  have "refsOpen ((updSession k (\<lambda>x. x\<lparr>tracksStopped := True\<rparr>) s)\<lparr>mediaStreamRef := None\<rparr>)
        = refsOpen (updSession k (\<lambda>x. x\<lparr>tracksStopped := True\<rparr>) s)"
    by (simp add: refsOpen_def split: option.splits)
  with Some show ?thesis by (simp add: stopTracks_def refsOpen_updSession)
qed

lemma refsOpen_disconnectNodes: "refsOpen (disconnectNodes s) = refsOpen s"
  by (simp add: disconnectNodes_def refsOpen_updSession split: option.splits)

lemma closeInput_ok:
  "refsOpen s \<Longrightarrow>
   closeInputContext s =
     Inr (case inputAudioContextRef s of
            Some k \<Rightarrow> updSession k (\<lambda>x. x\<lparr>inputCtxClosed := True\<rparr>) s | None \<Rightarrow> s)"
  by (auto simp: refsOpen_def closeInputContext_def split: option.splits)

lemma closeOutput_ok:
  "outputOpen s \<Longrightarrow>
   closeOutputContext s =
     Inr (case audioContextRef s of
            Some k \<Rightarrow> updSession k (\<lambda>x. x\<lparr>outputCtxClosed := True\<rparr>) s | None \<Rightarrow> s)"
  by (auto simp: outputOpen_def closeOutputContext_def split: option.splits)

lemma outputOpen_after_closeInput:
  "refsOpen s \<Longrightarrow>
   outputOpen (case inputAudioContextRef s of
            Some k \<Rightarrow> updSession k (\<lambda>x. x\<lparr>inputCtxClosed := True\<rparr>) s | None \<Rightarrow> s)"
  by (auto simp: refsOpen_def outputOpen_def outputCtxClosed_updSession split: option.splits)

lemma stopSession_ok:
  assumes "refsOpen s"
  shows "stopSession s = resetAndFlush (closeContexts (disconnectNodes (stopTracks s)))"
proof -
  let ?s2 = "disconnectNodes (stopTracks s)"
  have r: "refsOpen ?s2"
    using assms by (simp add: refsOpen_disconnectNodes refsOpen_stopTracks)
  show ?thesis
    unfolding stopSession_def Let_def closeContexts_def
    by (simp add: closeInput_ok [OF r] closeOutput_ok [OF outputOpen_after_closeInput [OF r]])
qed

section \<open>The counter under every operation\<close>

lemma counter_updSession [simp]: "counter (updSession k f s) = counter s"
  by (simp add: counter_def)

lemma counter_reject [simp]: "counter (reject e s) = counter s"
  by (simp add: counter_def reject_def)

lemma counter_stopTracks [simp]: "counter (stopTracks s) = counter s"
  by (simp add: counter_def stopTracks_def split: option.splits)

lemma counter_disconnectNodes [simp]: "counter (disconnectNodes s) = counter s"
  by (simp add: disconnectNodes_def split: option.splits)

lemma counter_closeInputContext: "closeInputContext s = Inr s' \<Longrightarrow> counter s' = counter s"
  by (auto simp: closeInputContext_def split: option.splits if_splits)

lemma counter_closeOutputContext: "closeOutputContext s = Inr s' \<Longrightarrow> counter s' = counter s"
  by (auto simp: closeOutputContext_def split: option.splits if_splits)

lemma counter_closeContexts [simp]: "counter (closeContexts s) = counter s"
  by (simp add: closeContexts_def Let_def split: option.splits)

lemma counter_resetAndFlush:
  "counter (resetAndFlush s) =
     (practiceCount s, committedCountRef s + countPracticeInText (currentTurnTextRef s), [])"
  by (simp add: counter_def resetAndFlush_def Let_def)

lemma counter_stopSession:
  "counter (stopSession s) = counter s \<or>
   counter (stopSession s) =
     (practiceCount s, committedCountRef s + countPracticeInText (currentTurnTextRef s), [])"
proof -
  let ?s2 = "disconnectNodes (stopTracks s)"
  have c2: "counter ?s2 = counter s" by simp
  show ?thesis
  proof (cases "closeInputContext ?s2")
    case (Inl e)
    then show ?thesis by (simp add: stopSession_def Let_def)
  next
    case (Inr s3)
    note in3 = this
    have c3: "counter s3 = counter s"
      using counter_closeInputContext [OF Inr] by simp
    show ?thesis
    proof (cases "closeOutputContext s3")
      case (Inl e)
      with in3 c3 show ?thesis by (simp add: stopSession_def Let_def)
    next
      case (Inr s4)
      have c4: "counter s4 = counter s"
        using counter_closeOutputContext [OF Inr] c3 by simp
      then have "practiceCount s4 = practiceCount s" "committedCountRef s4 = committedCountRef s"
        "currentTurnTextRef s4 = currentTurnTextRef s"
        by (simp_all add: counter_def)
      with in3 Inr show ?thesis by (simp add: stopSession_def Let_def counter_resetAndFlush)
    qed
  qed
qed

lemma counter_stopSession_ok:
  "refsOpen s \<Longrightarrow>
   counter (stopSession s) =
     (practiceCount s, committedCountRef s + countPracticeInText (currentTurnTextRef s), [])"
proof -
  assume "refsOpen s"
  have "counter (closeContexts (disconnectNodes (stopTracks s))) = counter s" by simp
  then have "practiceCount (closeContexts (disconnectNodes (stopTracks s))) = practiceCount s"
    "committedCountRef (closeContexts (disconnectNodes (stopTracks s))) = committedCountRef s"
    "currentTurnTextRef (closeContexts (disconnectNodes (stopTracks s))) = currentTurnTextRef s"
    by (simp_all add: counter_def)
  then show ?thesis
    by (simp add: stopSession_ok [OF \<open>refsOpen s\<close>] counter_resetAndFlush)
qed

lemma counter_startSession [simp]: "counter (startSession r s) = counter s"
  by (cases r) (simp_all add: counter_def startSession_def Let_def)

lemma counter_onopen [simp]: "counter (onopen k s) = counter s"
  by (simp add: onopen_def) (simp add: counter_def)

lemma counter_onaudioprocess [simp]: "counter (onaudioprocess k f s) = counter s"
  by (simp add: onaudioprocess_def split: sum.splits)

lemma counter_connectResolved [simp]: "counter (connectResolved k s) = counter s"
  by (simp add: connectResolved_def)

lemma counter_connectRejected [simp]: "counter (connectRejected k s) = counter s"
  by (simp add: connectRejected_def)

lemma counter_onclose [simp]: "counter (onclose k s) = counter s"
  by (simp add: counter_def onclose_def)

lemma counter_onerror [simp]: "counter (onerror k s) = counter s"
  by (simp add: counter_def onerror_def)

lemma counter_onAudio [simp]: "counter (onAudio k a s) = counter s"
  by (simp add: onAudio_def split: sum.splits)

lemma counter_onTranscription:
  "counter (onTranscription t s) =
     (committedCountRef s + countPracticeInText (currentTurnTextRef s @ t),
      committedCountRef s, currentTurnTextRef s @ t)"
  by (simp add: counter_def onTranscription_def setTranscript_def Let_def)

lemma counter_onTurnComplete:
  "counter (onTurnComplete s) =
     (practiceCount s, committedCountRef s + countPracticeInText (currentTurnTextRef s), [])"
  by (simp add: counter_def onTurnComplete_def Let_def)

lemma counter_onmessage:
  "counter (onmessage k m s) =
     (let s1 = (case inputTranscription m of Some text \<Rightarrow> onTranscription text s | None \<Rightarrow> s)
      in if turnComplete m then counter (onTurnComplete s1) else counter s1)"
  by (simp add: onmessage_def Let_def split: option.splits)

lemma count_nil [simp]: "countPracticeInText [] = 0"
  by (simp add: countPracticeInText_def)

lemma countInv_counter:
  "countInv s \<longleftrightarrow> (case counter s of (p, c, t) \<Rightarrow> p = c + countPracticeInText t)"
  by (simp add: countInv_def counter_def)

lemma countInv_onmessage: "countInv s \<Longrightarrow> countInv (onmessage k m s)"
  by (cases "inputTranscription m")
     (simp_all add: countInv_counter counter_onmessage counter_onTurnComplete
        counter_onTranscription, simp_all add: counter_def onTranscription_def onTurnComplete_def Let_def setTranscript_def)

lemma countInv_step: "countInv s \<Longrightarrow> countInv (step e s)"
proof (cases e)
  case StopSession
  assume "countInv s"
  with counter_stopSession [of s] StopSession show ?thesis
    by (auto simp: countInv_counter counter_def)
next
  case (OnMessage k m)
  assume "countInv s"
  with OnMessage show ?thesis by (simp add: countInv_onmessage)
qed (simp_all add: countInv_counter)

lemma countInv_run: "countInv s \<Longrightarrow> countInv (run evs s)"
  unfolding run_def by (induction evs arbitrary: s) (simp_all add: countInv_step)

lemma countInv_initial: "countInv initial"
  by (simp add: countInv_def initial_def)

lemma committed_counter: "committedCountRef s = fst (snd (counter s))"
  by (simp add: counter_def)

lemma committed_mono_onmessage: "committedCountRef s \<le> committedCountRef (onmessage k m s)"
  by (cases "inputTranscription m")
     (simp_all add: committed_counter counter_onmessage counter_onTurnComplete
        counter_onTranscription, simp_all add: counter_def onTranscription_def onTurnComplete_def Let_def setTranscript_def)

lemma committed_mono: "committedCountRef s \<le> committedCountRef (step e s)"
proof (cases e)
  case StopSession
  with counter_stopSession [of s] show ?thesis
    by (auto simp: counter_def)
next
  case (OnMessage k m)
  then show ?thesis by (simp add: committed_mono_onmessage)
qed (simp_all add: committed_counter)

section \<open>Referenced contexts stay open\<close>

lemma refsOpen_reject [simp]: "refsOpen (reject e s) = refsOpen s"
  by (simp add: refsOpen_def reject_def cong: option.case_cong)

lemma refsOpen_resetAndFlush [simp]: "refsOpen (resetAndFlush s)"
  by (simp add: refsOpen_def resetAndFlush_def Let_def)

lemma refsOpen_startSession: "refsOpen (startSession r s)"
  by (cases r) (simp_all add: refsOpen_def startSession_def Let_def newSession_def)

lemma refsOpen_onopen: "refsOpen (onopen k s) = refsOpen s"
proof -
  have "refsOpen (s\<lparr>console := console s @ [js ''Session connected''], isRecording := True,
          sourceRef := Some k, processorRef := Some k\<rparr>) = refsOpen s"
    by (simp add: refsOpen_def cong: option.case_cong)
  then show ?thesis by (simp add: onopen_def refsOpen_updSession)
qed

lemma refsOpen_onaudioprocess: "refsOpen (onaudioprocess k f s) = refsOpen s"
  by (simp add: onaudioprocess_def refsOpen_updSession split: sum.splits promiseState.splits)

lemma refsOpen_connectResolved: "refsOpen (connectResolved k s) = refsOpen s"
  by (simp add: connectResolved_def refsOpen_updSession split: promiseState.splits)

lemma refsOpen_connectRejected: "refsOpen (connectRejected k s) = refsOpen s"
  by (simp add: connectRejected_def refsOpen_updSession split: promiseState.splits)

lemma refsOpen_onmessage: "refsOpen (onmessage k m s) = refsOpen s"
proof -
  have a: "refsOpen (onAudio k x t) = refsOpen t" for x t
    by (simp add: onAudio_def refsOpen_updSession split: sum.splits)
  have b: "refsOpen (onTurnComplete t) = refsOpen t" for t
    by (simp add: refsOpen_def onTurnComplete_def Let_def cong: option.case_cong)
  have c: "refsOpen (onTranscription x t) = refsOpen t" for x t
    by (simp add: refsOpen_def onTranscription_def setTranscript_def Let_def cong: option.case_cong)
  show ?thesis by (simp add: onmessage_def Let_def a b c split: option.splits)
qed

lemma refsOpen_onclose: "refsOpen (onclose k s) = refsOpen s"
  by (simp add: refsOpen_def onclose_def cong: option.case_cong)

lemma refsOpen_onerror: "refsOpen (onerror k s) = refsOpen s"
  by (simp add: refsOpen_def onerror_def cong: option.case_cong)

lemma refsOpen_step: "refsOpen s \<Longrightarrow> refsOpen (step e s)"
  by (cases e)
     (simp_all add: refsOpen_startSession stopSession_ok refsOpen_onopen refsOpen_onaudioprocess
        refsOpen_connectResolved refsOpen_connectRejected refsOpen_onmessage refsOpen_onclose
        refsOpen_onerror)

lemma refsOpen_run: "refsOpen s \<Longrightarrow> refsOpen (run evs s)"
  unfolding run_def by (induction evs arbitrary: s) (simp_all add: refsOpen_step)

lemma refsOpen_initial: "refsOpen initial"
  by (simp add: refsOpen_def initial_def)

section \<open>The matcher counts the whole-word occurrences\<close>

lemma charAt_nth: "charAt t n = (if n < length t then Some (t ! n) else None)"
  by (induction t n rule: charAt.induct) simp_all

lemma matchChars_iff:
  "matchChars p t \<longleftrightarrow>
     length p \<le> length t \<and> map canonicalize (take (length p) t) = map canonicalize p"
  by (induction p t rule: matchChars.induct) auto

lemma practice_word: "p \<in> set practice \<Longrightarrow> canonicalize p = canonicalize c \<Longrightarrow> isWordChar c"
  by (auto simp: practice_def canonicalize_def isWordChar_def split: if_splits)

lemma length_practice [simp]: "length practice = 8"
  by (simp add: practice_def)

lemma matchChars_word:
  assumes "matchChars practice t" "n < 8"
  shows "n < length t \<and> isWordChar (t ! n)"
proof -
  from assms have len: "8 \<le> length t"
    and eq: "map canonicalize (take 8 t) = map canonicalize practice"
    by (simp_all add: matchChars_iff)
  from eq have "map canonicalize (take 8 t) ! n = map canonicalize practice ! n" by simp
  with len assms(2) have "canonicalize (t ! n) = canonicalize (practice ! n)" by simp
  moreover have "practice ! n \<in> set practice" using assms(2) by simp
  ultimately show ?thesis using practice_word [of "practice ! n" "t ! n"] len assms(2) by simp
qed

lemma matchAt_iff:
  "matchAt prev t \<longleftrightarrow>
     matchChars practice t \<and> \<not> isWordAt prev \<and> (length t = 8 \<or> \<not> isWordChar (t ! 8))"
proof (cases "matchChars practice t")
  case False
  then show ?thesis by (simp add: matchAt_def)
next
  case True
  from matchChars_word [OF True, of 0] matchChars_word [OF True, of 7]
  have w: "0 < length t" "isWordChar (t ! 0)" "7 < length t" "isWordChar (t ! 7)" by simp_all
  then show ?thesis using True
    by (auto simp: matchAt_def wordBoundary_def charAt_nth)
qed

lemma no_match_after_word: "isWordChar p \<Longrightarrow> \<not> matchAt (Some p) t"
  by (simp add: matchAt_iff)

lemma occs_skip_word:
  "\<forall>j < n. j < length t \<and> isWordChar (t ! j) \<Longrightarrow> isWordChar p \<Longrightarrow> n \<le> length t \<Longrightarrow>
   occs (Some p) t = occs (if n = 0 then Some p else Some (t ! (n - 1))) (drop n t)"
proof (induction n arbitrary: p t)
  case 0
  then show ?case by simp
next
  case (Suc n)
  then obtain c cs where t: "t = c # cs" by (cases t) auto
  from Suc.prems have wc: "isWordChar c" using t by auto
  have a: "\<forall>j<n. j < length cs \<and> isWordChar (cs ! j)"
    using Suc.prems(1) t by auto
  have "occs (Some p) t = occs (Some c) cs"
    using no_match_after_word [OF Suc.prems(2), of "c # cs"] t by simp
  also have "\<dots> = occs (if n = 0 then Some c else Some (cs ! (n - 1))) (drop n cs)"
    using Suc.IH [OF a wc] Suc.prems(3) t by simp
  finally show ?case using t by (cases n) simp_all
qed

lemma matchAll_occs: "matchAll prev t = occs prev t"
proof (induction prev t rule: matchAll.induct)
  case (1 prev)
  show ?case by simp
next
  case (2 prev c cs)
  show ?case
  proof (cases "matchAt prev (c # cs)")
    case False
    with 2 show ?thesis by simp
  next
    case True
    then have mc: "matchChars practice (c # cs)" by (simp add: matchAt_iff)
    have w: "\<forall>j<7. j < length cs \<and> isWordChar (cs ! j)"
    proof (intro allI impI)
      fix j :: nat assume "j < 7"
      then have "Suc j < 8" by simp
      from matchChars_word [OF mc this] show "j < length cs \<and> isWordChar (cs ! j)" by simp
    qed
    have wc: "isWordChar c" using matchChars_word [OF mc, of 0] by simp
    have len: "7 \<le> length cs" using w by (auto dest: spec [of _ 6])
    have "occs (Some c) cs = occs (Some (cs ! 6)) (drop 7 cs)"
      using occs_skip_word [OF w wc len] by simp
    moreover have "charAt (c # cs) 7 = Some (cs ! 6)"
      using len by (simp add: charAt_nth)
    ultimately show ?thesis using True 2 by simp
  qed
qed

lemma occs_filter:
  "occs prev t = length (filter (\<lambda>i. matchAt (prevAt prev t i) (drop i t)) [0..<length t])"
proof (induction t arbitrary: prev)
  case Nil
  show ?case by simp
next
  case (Cons c cs)
  have "[0..<length (c # cs)] = 0 # map Suc [0..<length cs]"
    by (simp add: upt_conv_Cons map_Suc_upt del: upt_Suc)
  moreover have "(\<lambda>i. matchAt (prevAt prev (c # cs) i) (drop i (c # cs))) \<circ> Suc
        = (\<lambda>i. matchAt (prevAt (Some c) cs i) (drop i cs))"
    by (auto simp: fun_eq_iff prevAt_def nth_Cons split: nat.splits)
  ultimately show ?case
    by (simp add: Cons.IH filter_map prevAt_def del: upt_Suc)
qed

lemma matchAt_occursAt:
  "i < length text \<Longrightarrow> matchAt (prevAt None text i) (drop i text) \<longleftrightarrow> occursAt text i"
  by (auto simp: matchAt_iff matchChars_iff occursAt_def prevAt_def add.commute)

lemma countPracticeInText_occurrences: "countPracticeInText text = occurrences text"
proof -
  have "filter (\<lambda>i. matchAt (prevAt None text i) (drop i text)) [0..<length text]
        = filter (occursAt text) [0..<length text]"
    by (rule filter_cong) (simp_all add: matchAt_occursAt)
  then show ?thesis
    by (simp add: countPracticeInText_def occurrences_def matchAll_occs occs_filter)
qed

section \<open>Deltas and turns\<close>

lemma counter_fields:
  "practiceCount s = fst (counter s)"
  "committedCountRef s = fst (snd (counter s))"
  "currentTurnTextRef s = snd (snd (counter s))"
  by (simp_all add: counter_def)

lemma counter_onmessage_open:
  "\<not> turnComplete m \<Longrightarrow>
   counter (onmessage k m s) =
     (case inputTranscription m of
        Some t \<Rightarrow> (committedCountRef s + countPracticeInText (currentTurnTextRef s @ t),
                   committedCountRef s, currentTurnTextRef s @ t)
      | None \<Rightarrow> counter s)"
  by (simp add: counter_onmessage counter_onTranscription split: option.splits)

lemma turn_buffer_fold:
  "\<forall>m \<in> set ms. \<not> turnComplete m \<Longrightarrow>
   committedCountRef (fold (onmessage k) ms s) = committedCountRef s \<and>
   currentTurnTextRef (fold (onmessage k) ms s) = currentTurnTextRef s @ deltaText ms"
proof (induction ms arbitrary: s)
  case Nil
  show ?case by (simp add: deltaText_def)
next
  case (Cons m ms)
  then have nt: "\<not> turnComplete m" and rest: "\<forall>m \<in> set ms. \<not> turnComplete m" by simp_all
  have "committedCountRef (onmessage k m s) = committedCountRef s"
    "currentTurnTextRef (onmessage k m s) =
       currentTurnTextRef s @ (case inputTranscription m of Some t \<Rightarrow> t | None \<Rightarrow> [])"
    using counter_onmessage_open [OF nt, of k s]
    by (simp_all add: counter_fields split: option.splits)
  with Cons.IH [OF rest, of "onmessage k m s"] show ?case
    by (simp add: deltaText_def)
qed

lemma reported_after_delta:
  assumes "\<forall>m \<in> set ms. \<not> turnComplete m" "\<not> turnComplete m'" "inputTranscription m' = Some d"
  shows "practiceCount (fold (onmessage k) (ms @ [m']) s) =
           committedCountRef s + countPracticeInText (currentTurnTextRef s @ deltaText (ms @ [m']))"
proof -
  let ?s = "fold (onmessage k) ms s"
  have a: "committedCountRef ?s = committedCountRef s"
    "currentTurnTextRef ?s = currentTurnTextRef s @ deltaText ms"
    using turn_buffer_fold [OF assms(1)] by simp_all
  have "practiceCount (onmessage k m' ?s) =
          committedCountRef ?s + countPracticeInText (currentTurnTextRef ?s @ d)"
    using counter_onmessage_open [OF assms(2), of k ?s] assms(3)
    by (simp add: counter_fields)
  with a show ?thesis using assms(3) by (simp add: deltaText_def)
qed

lemma counter_turn:
  "counter (fold (onmessage k) (turn ds) s) =
     ((if ds = [] then practiceCount s
       else committedCountRef s + countPracticeInText (currentTurnTextRef s @ concat ds)),
      committedCountRef s + countPracticeInText (currentTurnTextRef s @ concat ds), [])"
proof -
  have nt: "\<forall>m \<in> set (map delta ds). \<not> turnComplete m" by (simp add: delta_def)
  have dt: "deltaText (map delta ds) = concat ds"
    by (induction ds) (simp_all add: deltaText_def delta_def)
  let ?s = "fold (onmessage k) (map delta ds) s"
  have a: "committedCountRef ?s = committedCountRef s"
    "currentTurnTextRef ?s = currentTurnTextRef s @ concat ds"
    using turn_buffer_fold [OF nt, of k s] dt by simp_all
  have p: "practiceCount ?s =
      (if ds = [] then practiceCount s
       else committedCountRef s + countPracticeInText (currentTurnTextRef s @ concat ds))"
  proof (cases ds rule: rev_cases)
    case Nil
    then show ?thesis by simp
  next
    case (snoc ys y)
    have "practiceCount (fold (onmessage k) (map delta ys @ [delta y]) s) =
           committedCountRef s +
           countPracticeInText (currentTurnTextRef s @ deltaText (map delta ys @ [delta y]))"
      by (rule reported_after_delta [where d = y]) (simp_all add: delta_def)
    moreover have "deltaText (map delta ys @ [delta y]) = concat ds"
      using dt snoc by simp
    ultimately show ?thesis using snoc by simp
  qed
  have "counter (onmessage k turnDone ?s) =
          (practiceCount ?s, committedCountRef ?s + countPracticeInText (currentTurnTextRef ?s), [])"
    by (simp add: counter_onmessage counter_onTurnComplete turnDone_def Let_def)
  with a p show ?thesis by (simp add: turn_def)
qed

lemma committed_turns:
  "currentTurnTextRef s = [] \<Longrightarrow>
   committedCountRef (fold (onmessage k) (concat (map turn turns)) s) =
     committedCountRef s + sum_list (map (\<lambda>ds. countPracticeInText (concat ds)) turns) \<and>
   currentTurnTextRef (fold (onmessage k) (concat (map turn turns)) s) = []"
proof (induction turns arbitrary: s)
  case Nil
  then show ?case by simp
next
  case (Cons ds turns)
  let ?s = "fold (onmessage k) (turn ds) s"
  have c: "committedCountRef ?s = committedCountRef s + countPracticeInText (concat ds)"
    "currentTurnTextRef ?s = []"
    using counter_turn [of k ds s] Cons.prems by (simp_all add: counter_fields)
  from Cons.IH [OF c(2)] c(1) show ?case by simp
qed

section \<open>C10: the transcript display buffer\<close>

lemma transcript_step:
  "transcript (step e s) =
     (case e of
        OnMessage k m \<Rightarrow> (if connected k s then transcript (onmessage k m s) else transcript s)
      | _ \<Rightarrow> transcript s)"
proof (cases e)
  case StopSession
  have a: "transcript (stopTracks t) = transcript t" for t
    by (simp add: stopTracks_def split: option.splits)
  have b: "transcript (disconnectNodes t) = transcript t" for t
    by (simp add: disconnectNodes_def split: option.splits)
  have c: "closeInputContext t = Inr t' \<Longrightarrow> transcript t' = transcript t" for t t'
    by (auto simp: closeInputContext_def split: option.splits if_splits)
  have d: "closeOutputContext t = Inr t' \<Longrightarrow> transcript t' = transcript t" for t t'
    by (auto simp: closeOutputContext_def split: option.splits if_splits)
  have e: "transcript (resetAndFlush t) = transcript t" for t
    by (simp add: resetAndFlush_def Let_def)
  have "transcript (stopSession s) = transcript s"
    by (auto simp: stopSession_def Let_def a b e dest!: c d split: sum.splits)
  with StopSession show ?thesis by simp
next
  case (StartSession r)
  then show ?thesis by (cases r) (simp_all add: startSession_def Let_def)
qed (simp_all add: onopen_def onclose_def onerror_def onaudioprocess_def connectResolved_def
       connectRejected_def split: sum.splits)

lemma transcript_bound_step: "length (transcript s) \<le> 300 \<Longrightarrow> length (transcript (step e s)) \<le> 300"
  by (cases e)
     (simp_all add: transcript_step transcript_onmessage length_slice_last del: step.simps
        split: option.splits)

lemma transcript_bound_run: "length (transcript s) \<le> 300 \<Longrightarrow> length (transcript (run evs s)) \<le> 300"
  unfolding run_def by (induction evs arbitrary: s) (simp_all add: transcript_bound_step)

text \<open>
  Claim C10. The bound of the transcript display buffer is 300. Starting from an empty
  display, after any messages the display is the last 300 code units of the
  concatenation of the transcript text received, so it is never longer than 300, in
  every run; no event but a transcript delta changes it; and the update of the display
  leaves the committed count and the turn buffer as they are.
\<close>

theorem transcript_window:
  "transcript (fold (onmessage k) ms (s\<lparr>transcript := []\<rparr>)) = slice_last 300 (deltaText ms) \<and>
   length (slice_last 300 text) = min 300 (length text) \<and>
   length (transcript (run evs initial)) \<le> 300 \<and>
   transcript (step e s) =
     (case e of
        OnMessage j m \<Rightarrow>
          (if connected j s
           then (case inputTranscription m of
                   Some t \<Rightarrow> slice_last 300 (transcript s @ t) | None \<Rightarrow> transcript s)
           else transcript s)
      | _ \<Rightarrow> transcript s) \<and>
   committedCountRef (setTranscript f s) = committedCountRef s \<and>
   currentTurnTextRef (setTranscript f s) = currentTurnTextRef s"
proof -
  have "transcript (fold (onmessage k) ms (s\<lparr>transcript := []\<rparr>)) = slice_last 300 (deltaText ms)"
    using transcript_fold_onmessage [of "s\<lparr>transcript := []\<rparr>" k ms] by simp
  moreover have "length (transcript (run evs initial)) \<le> 300"
    by (rule transcript_bound_run) (simp add: initial_def)
  moreover have "transcript (step e s) =
     (case e of
        OnMessage j m \<Rightarrow>
          (if connected j s
           then (case inputTranscription m of
                   Some t \<Rightarrow> slice_last 300 (transcript s @ t) | None \<Rightarrow> transcript s)
           else transcript s)
      | _ \<Rightarrow> transcript s)"
    by (simp add: transcript_step transcript_onmessage del: step.simps split: event.splits)
  ultimately show ?thesis
    by (simp add: length_slice_last setTranscript_def)
qed

theorem transcript_window_witness:
  "transcript (fold (onmessage 0) [delta (replicate 200 97), turnDone, delta (replicate 150 98)]
                (initial\<lparr>transcript := []\<rparr>))
     = replicate 150 97 @ replicate 150 98 \<and>
   length (transcript (run [StartSession Granted, OnOpen 0, OnMessage 0 (delta (replicate 400 97))] initial)) \<le> 300"
proof -
  have "deltaText [delta (replicate 200 97), turnDone, delta (replicate 150 98)]
          = replicate 200 97 @ replicate 150 98"
    by (simp add: deltaText_def delta_def turnDone_def)
  then show ?thesis
    using transcript_window [of 0 "[delta (replicate 200 97), turnDone, delta (replicate 150 98)]"
        initial "[]" "[StartSession Granted, OnOpen 0, OnMessage 0 (delta (replicate 400 97))]"
        StopSession id]
    by (simp add: slice_last_def)
qed

section \<open>C1: the invariant of the count state\<close>

lemma committed_step_other:
  "(case e of
      StopSession \<Rightarrow> True
    | OnMessage k m \<Rightarrow> turnComplete m \<or> committedCountRef (step e s) = committedCountRef s
    | _ \<Rightarrow> committedCountRef (step e s) = committedCountRef s)"
proof (cases e)
  case (OnMessage k m)
  have "\<not> turnComplete m \<Longrightarrow> committedCountRef (onmessage k m s) = committedCountRef s"
    using counter_onmessage_open [of m k s]
    by (simp add: counter_fields split: option.splits)
  with OnMessage show ?thesis by auto
qed (simp_all add: committed_counter)

lemma abrupt_stop_example:
  "committedCountRef
     (run [StartSession Granted, OnOpen 0, OnMessage 0 (delta (js ''practice practice'')),
           StopSession] initial) = 2"
  by code_simp

text \<open>
  Claim C1. In every state that a run of events reaches from the initial state, the
  reported count is the committed count plus the number of matches in the turn buffer.
  No event lowers the committed count, and only \<open>stopSession\<close> and a message with
  \<open>turnComplete\<close> change it. Turn completion adds the matches of the turn buffer to the
  committed count, empties the buffer and leaves the reported count; so does
  \<open>stopSession\<close> in every reachable state. Over whole turns the committed count is the
  sum of the matches of each turn's text, each text counted once. The deltas
  \<open>["practice practice"]\<close> followed by a stop commit 2.
\<close>

theorem count_state_invariant:
  "practiceCount (run evs initial) =
     committedCountRef (run evs initial) +
     countPracticeInText (currentTurnTextRef (run evs initial)) \<and>
   committedCountRef s \<le> committedCountRef (step e s) \<and>
   (case e of
      StopSession \<Rightarrow> True
    | OnMessage k m \<Rightarrow> turnComplete m \<or> committedCountRef (step e s) = committedCountRef s
    | _ \<Rightarrow> committedCountRef (step e s) = committedCountRef s) \<and>
   counter (onTurnComplete s) =
     (practiceCount s, committedCountRef s + countPracticeInText (currentTurnTextRef s), []) \<and>
   counter (stopSession (run evs initial)) =
     (practiceCount (run evs initial),
      committedCountRef (run evs initial) +
      countPracticeInText (currentTurnTextRef (run evs initial)), []) \<and>
   committedCountRef (fold (onmessage j) (concat (map turn turns)) initial) =
     sum_list (map (\<lambda>ds. countPracticeInText (concat ds)) turns) \<and>
   committedCountRef
     (run [StartSession Granted, OnOpen 0, OnMessage 0 (delta (js ''practice practice'')),
           StopSession] initial) = 2"
proof -
  have inv: "countInv (run evs initial)"
    by (rule countInv_run [OF countInv_initial])
  have op: "refsOpen (run evs initial)"
    by (rule refsOpen_run [OF refsOpen_initial])
  have turns: "committedCountRef (fold (onmessage j) (concat (map turn turns)) initial) =
     sum_list (map (\<lambda>ds. countPracticeInText (concat ds)) turns)"
    using committed_turns [of initial j turns] by (simp add: initial_def)
  show ?thesis
    using inv committed_mono [of s e] committed_step_other [of e s] counter_onTurnComplete [of s]
      counter_stopSession_ok [OF op] turns abrupt_stop_example
    by (simp only: countInv_def simp_thms)
qed

theorem count_state_invariant_witness:
  "practiceCount (run [StartSession Granted, OnOpen 0, OnMessage 0 (delta (js ''practice practice''))] initial) = 2 \<and>
   committedCountRef (run [StartSession Granted, OnOpen 0, OnMessage 0 (delta (js ''practice practice''))] initial) = 0 \<and>
   counter (stopSession (run [StartSession Granted, OnOpen 0, OnMessage 0 (delta (js ''practice practice''))] initial))
     = (2, 2, []) \<and>
   committedCountRef (fold (onmessage 0)
       (concat (map turn [[js ''I like to prac'', js ''tice daily. '', js ''Practice makes perfect.''],
                          [js ''practice'']])) initial) = 3"
proof -
  let ?evs = "[StartSession Granted, OnOpen 0, OnMessage 0 (delta (js ''practice practice''))]"
  let ?turns = "[[js ''I like to prac'', js ''tice daily. '', js ''Practice makes perfect.''],
                 [js ''practice'']]"
  have a: "committedCountRef (run ?evs initial) = 0" by code_simp
  have b: "countPracticeInText (currentTurnTextRef (run ?evs initial)) = 2" by code_simp
  have c: "sum_list (map (\<lambda>ds. countPracticeInText (concat ds)) ?turns) = 3" by code_simp
  show ?thesis
    using count_state_invariant [of ?evs initial StopSession 0 ?turns] a b c
    by simp
qed

section \<open>C2: the reported count within a turn\<close>

text \<open>
  Claim C2. Within one turn, that is from an empty turn buffer and through messages none
  of which completes the turn, the count reported after a delta is the committed count
  at the start of the turn plus the number of whole-word, case-insensitive occurrences
  of the keyword in the concatenation of the deltas so far; the matcher of the source
  counts exactly these occurrences, the committed count stays, and the buffer holds the
  concatenation, so an occurrence split across two deltas is counted.
\<close>

theorem reported_count_in_turn:
  assumes "\<forall>m \<in> set ms. \<not> turnComplete m" and "\<not> turnComplete m'"
    and "inputTranscription m' = Some d" and "currentTurnTextRef s = []"
  shows "practiceCount (fold (onmessage k) (ms @ [m']) s) =
           committedCountRef s + occurrences (deltaText (ms @ [m'])) \<and>
         countPracticeInText (deltaText (ms @ [m'])) = occurrences (deltaText (ms @ [m'])) \<and>
         committedCountRef (fold (onmessage k) (ms @ [m']) s) = committedCountRef s \<and>
         currentTurnTextRef (fold (onmessage k) (ms @ [m']) s) = deltaText (ms @ [m'])"
proof -
  have nt: "\<forall>m \<in> set (ms @ [m']). \<not> turnComplete m" using assms(1,2) by simp
  show ?thesis
    using reported_after_delta [OF assms(1-3), of k s] turn_buffer_fold [OF nt, of k s] assms(4)
    by (simp add: countPracticeInText_occurrences)
qed

theorem reported_count_in_turn_witness:
  "practiceCount (fold (onmessage 0) ([delta (js ''I like to prac'')] @ [delta (js ''tice daily.'')]) initial) = 1 \<and>
   countPracticeInText (js ''I like to prac'') + countPracticeInText (js ''tice daily.'') = 0"
proof -
  have h: "\<forall>m \<in> set [delta (js ''I like to prac'')]. \<not> turnComplete m"
    "\<not> turnComplete (delta (js ''tice daily.''))"
    "inputTranscription (delta (js ''tice daily.'')) = Some (js ''tice daily.'')"
    "currentTurnTextRef initial = []"
    by (simp_all add: delta_def initial_def)
  have o: "occurrences (deltaText ([delta (js ''I like to prac'')] @ [delta (js ''tice daily.'')])) = 1"
    by code_simp
  have z: "countPracticeInText (js ''I like to prac'') + countPracticeInText (js ''tice daily.'') = 0"
    by code_simp
  show ?thesis
    using reported_count_in_turn [OF h, of 0] o z by (simp add: initial_def)
qed

section \<open>The codec: base64 and the byte views\<close>

lemma pack_div: "y < n \<Longrightarrow> (x * n + y) div n = (x::nat)"
  by simp

lemma pack_mod: "y < n \<Longrightarrow> (x * n + y) mod n = (y::nat)"
  by simp

lemma div16: "b < 256 \<Longrightarrow> (b::nat) div 16 < 16"
  by (simp add: div_less_iff_less_mult)

lemma div64: "b < 256 \<Longrightarrow> (b::nat) div 64 < 4"
  by (simp add: div_less_iff_less_mult)

lemma div4: "b < 256 \<Longrightarrow> (b::nat) div 4 < 64"
  by (simp add: div_less_iff_less_mult)

lemma sextet_bound: "x < m \<Longrightarrow> y < n \<Longrightarrow> x * n + y < m * (n::nat)"
proof -
  assume a: "x < m" "y < n"
  then have "x * n + y < x * n + n" by simp
  also have "\<dots> = Suc x * n" by simp
  also have "\<dots> \<le> m * n" using a(1) by (intro mult_le_mono1) simp
  finally show ?thesis .
qed

lemma s1_bound: "b < 256 \<Longrightarrow> (a::nat) mod 4 * 16 + b div 16 < 64"
  using sextet_bound [of "a mod 4" 4 "b div 16" 16] by (simp add: div16)

lemma s2_bound: "c < 256 \<Longrightarrow> (b::nat) mod 16 * 4 + c div 64 < 64"
  using sextet_bound [of "b mod 16" 16 "c div 64" 4] by (simp add: div64)

lemma s1'_bound: "(a::nat) mod 4 * 16 < 64"
  using sextet_bound [of "a mod 4" 4 0 16] by simp

lemma s2'_bound: "(b::nat) mod 16 * 4 < 64"
  using sextet_bound [of "b mod 16" 16 0 4] by simp

lemma byte0: "b < 256 \<Longrightarrow> (a::nat) div 4 * 4 + (a mod 4 * 16 + b div 16) div 16 = a"
  by (simp add: pack_div div16)

lemma byte1: "c < 256 \<Longrightarrow> b < 256 \<Longrightarrow>
   ((a::nat) mod 4 * 16 + b div 16) mod 16 * 16 + (b mod 16 * 4 + c div 64) div 4 = b"
  by (simp add: pack_div pack_mod div16 div64)

lemma byte2: "c < 256 \<Longrightarrow> ((b::nat) mod 16 * 4 + c div 64) mod 4 * 64 + c mod 64 = c"
  by (simp add: pack_mod div64)

lemma byte0': "(a::nat) div 4 * 4 + (a mod 4 * 16) div 16 = a"
  by simp

lemma byte1': "b < 256 \<Longrightarrow> ((a::nat) mod 4 * 16 + b div 16) mod 16 * 16 + (b mod 16 * 4) div 4 = b"
  by (simp add: pack_mod div16)

lemma b64padding_step [simp]: "b64padding (a # b # c # rest) = b64padding rest"
  by (simp add: b64padding_def)

lemma b64groups_split: "b64groups bs = map b64char (b64sextets bs) @ b64padding bs"
  by (induction bs rule: b64groups.induct) (simp_all add: b64padding_def numeral_2_eq_2)

lemma b64sextets_bound: "\<forall>b \<in> set bs. b < 256 \<Longrightarrow> \<forall>x \<in> set (b64sextets bs). x < 64"
  by (induction bs rule: b64sextets.induct)
     (simp_all add: div4 s1_bound s2_bound s1'_bound s2'_bound)

lemma b64bytes_sextets: "\<forall>b \<in> set bs. b < 256 \<Longrightarrow> b64bytes (b64sextets bs) = bs"
proof (induction bs rule: b64sextets.induct)
  case (4 a b c rest)
  then have lt: "b < 256" "c < 256" and ih: "b64bytes (b64sextets rest) = rest" by simp_all
  show ?case
    by (simp only: b64sextets.simps b64bytes.simps append_Cons append_Nil ih
          byte0 [OF lt(1)] byte1 [OF lt(2) lt(1)] byte2 [OF lt(2)])
next
  case (3 a b)
  then have lt: "b < 256" by simp
  show ?case
    by (simp only: b64sextets.simps b64bytes.simps byte0 [OF lt] byte1' [OF lt])
next
  case (2 a)
  show ?case
    by (simp only: b64sextets.simps b64bytes.simps byte0')
qed simp

lemma b64char_cases:
  "(n < 26 \<and> b64char n = 65 + n) \<or> (26 \<le> n \<and> n < 52 \<and> b64char n = 71 + n) \<or>
   (52 \<le> n \<and> n < 62 \<and> b64char n + 4 = n) \<or> (n = 62 \<and> b64char n = 43) \<or>
   (62 < n \<and> b64char n = 47)"
  by (simp add: b64char_def)

lemma b64index_char: "n < 64 \<Longrightarrow> b64index (b64char n) = Some n"
  using b64char_cases [of n] by (auto simp: b64index_def)

lemma b64char_not_pad: "b64char n \<noteq> 61"
  using b64char_cases [of n] by auto

lemma b64char_not_space: "\<not> isAsciiWhitespace (b64char n)"
  using b64char_cases [of n] by (auto simp: isAsciiWhitespace_def)

lemma those_index_char:
  "\<forall>x \<in> set sx. x < 64 \<Longrightarrow> those (map (b64index \<circ> b64char) sx) = Some sx"
  by (induction sx) (simp_all add: b64index_char)

lemma length_b64sextets_mod: "length (b64sextets bs) mod 4 \<noteq> 1"
  by (induction bs rule: b64sextets.induct) simp_all

lemma length_b64groups_mod: "length (b64groups bs) mod 4 = 0"
  by (induction bs rule: b64groups.induct) simp_all

lemma dropPadding_chars:
  assumes "p \<le> 2"
  shows "dropPadding (map b64char sx @ replicate p 61) = map b64char sx"
proof -
  have e: "map b64char sx = [] \<or> last (map b64char sx) \<noteq> 61"
    by (cases sx rule: rev_cases) (simp_all add: b64char_not_pad)
  from assms consider "p = 0" | "p = 1" | "p = 2" by arith
  then show ?thesis
  proof cases
    case 1
    with e show ?thesis by (auto simp: dropPadding_def)
  next
    case 2
    with e show ?thesis by (auto simp: dropPadding_def Let_def)
  next
    case 3
    then have "replicate p (61::nat) = [61] @ [61]" by (simp add: numeral_2_eq_2)
    then have "map b64char sx @ replicate p 61 = (map b64char sx @ [61]) @ [61]" by simp
    then show ?thesis
      by (simp only: dropPadding_def Let_def butlast_snoc last_snoc) simp
  qed
qed

lemma filter_space_b64groups:
  "filter (\<lambda>c. \<not> isAsciiWhitespace c) (b64groups bs) = b64groups bs"
proof -
  have "\<forall>c \<in> set (map b64char (b64sextets bs)). \<not> isAsciiWhitespace c"
    by (simp add: b64char_not_space)
  moreover have "\<forall>c \<in> set (b64padding bs). \<not> isAsciiWhitespace c"
    by (simp add: b64padding_def isAsciiWhitespace_def)
  ultimately have "\<forall>c \<in> set (b64groups bs). \<not> isAsciiWhitespace c"
    by (simp add: b64groups_split ball_Un)
  then show ?thesis by (simp add: filter_id_conv)
qed

lemma atob_b64groups:
  assumes "\<forall>b \<in> set bs. b < 256"
  shows "atob (b64groups bs) = Inr bs"
proof -
  have p: "(3 - length bs mod 3) mod 3 \<le> 2" by arith
  have d: "dropPadding (b64groups bs) = map b64char (b64sextets bs)"
    by (simp add: b64groups_split b64padding_def dropPadding_chars [OF p])
  show ?thesis
    using length_b64sextets_mod [of bs]
    by (simp add: atob_def filter_space_b64groups length_b64groups_mod d Let_def
          those_index_char [OF b64sextets_bound [OF assms]] b64bytes_sextets [OF assms])
qed

lemma signed16_range: "- 32768 \<le> signed16 n \<and> signed16 n \<le> 32767"
proof -
  define m where "m = n mod 65536"
  have "0 \<le> m" "m < 65536" by (simp_all add: m_def)
  then show ?thesis unfolding signed16_def Let_def m_def [symmetric] by (simp split: if_splits)
qed

lemma mod65536_of_range:
  assumes "- 32768 \<le> v" "v \<le> (32767::int)"
  shows "v mod 65536 = (if v < 0 then v + 65536 else v)"
proof (cases "v < 0")
  case False
  with assms show ?thesis by simp
next
  case True
  have "v mod 65536 = (v + 65536) mod 65536" by simp
  also have "\<dots> = v + 65536" using assms True by (intro mod_pos_pos_trivial) simp_all
  finally show ?thesis using True by simp
qed

lemma signed16_id:
  assumes "- 32768 \<le> v" "v \<le> 32767"
  shows "signed16 v = v"
  using assms by (simp add: signed16_def Let_def mod65536_of_range)

lemma signed16_mod: "signed16 (v mod 65536) = signed16 v"
  by (simp add: signed16_def)

lemma toInt16_range: "- 32768 \<le> toInt16 x \<and> toInt16 x \<le> 32767"
  by (cases x) (simp_all add: signed16_range)

lemma int16Bytes_bound: "\<forall>b \<in> set (int16Bytes v). b < 256"
proof -
  define u where "u = nat (v mod 65536)"
  have "u < 65536" by (simp add: u_def nat_less_iff)
  then have "u div 256 < 256" by (simp add: div_less_iff_less_mult)
  then show ?thesis by (simp add: int16Bytes_def Let_def u_def [symmetric])
qed

lemma bytesInt16_int16Bytes:
  "bytesInt16 (int16Bytes v @ rest) = signed16 v # bytesInt16 rest"
proof -
  define u where "u = nat (v mod 65536)"
  have "u mod 256 + 256 * (u div 256) = u" by simp
  moreover have "int u = v mod 65536" by (simp add: u_def)
  ultimately have "signed16 (int (u mod 256 + 256 * (u div 256))) = signed16 v"
    by (simp only: signed16_mod)
  then show ?thesis by (simp add: int16Bytes_def Let_def u_def [symmetric])
qed

lemma bytesInt16_concat:
  "bytesInt16 (concat (map int16Bytes vs)) = map signed16 vs"
  by (induction vs) (simp_all add: bytesInt16_int16Bytes)

lemma length_int16Bytes [simp]: "length (int16Bytes v) = 2"
  by (simp add: int16Bytes_def Let_def)

lemma length_concat_int16Bytes: "length (concat (map int16Bytes vs)) = 2 * length vs"
  by (induction vs) simp_all

lemma length_bytesInt16: "length (bytesInt16 bs) = length bs div 2"
  by (induction bs rule: bytesInt16.induct) simp_all

lemma encode_bytes:
  assumes "\<forall>b \<in> set bs. b < 256"
  shows "encode bs = Inr (b64groups bs)"
proof -
  have "map fromCharCode bs = bs"
    using assms by (induction bs) (simp_all add: fromCharCode_def)
  moreover have "\<not> (\<exists>c \<in> set bs. 255 < c)" using assms by auto
  ultimately show ?thesis by (simp add: encode_def btoa_def)
qed

lemma decode_b64groups:
  assumes "\<forall>b \<in> set bs. b < 256"
  shows "decode (b64groups bs) = Inr bs"
proof -
  have "map (\<lambda>c. c mod 256) bs = bs"
    using assms by (induction bs) simp_all
  then show ?thesis by (simp add: decode_def atob_b64groups [OF assms])
qed

lemma pcmBytes_bound: "\<forall>b \<in> set (pcmBytes samples). b < 256"
  using int16Bytes_bound by (auto simp: pcmBytes_def)

lemma createBlob_eq:
  "createBlob samples =
     Inr \<lparr>data = b64groups (pcmBytes samples), mimeType = js ''audio/pcm;rate=16000''\<rparr>"
proof -
  have "concat (map int16Bytes (map (\<lambda>x. toInt16 (times32768 x)) samples)) = pcmBytes samples"
    by (simp add: pcmBytes_def comp_def)
  then show ?thesis
    by (simp add: createBlob_def Let_def encode_bytes [OF pcmBytes_bound])
qed

lemma bytesInt16_pcmBytes:
  "bytesInt16 (pcmBytes samples) = map (\<lambda>x. toInt16 (times32768 x)) samples"
proof -
  have "bytesInt16 (pcmBytes samples) = map signed16 (map (\<lambda>x. toInt16 (times32768 x)) samples)"
    using bytesInt16_concat [of "map (\<lambda>x. toInt16 (times32768 x)) samples"]
    by (simp add: pcmBytes_def comp_def)
  also have "\<dots> = map (\<lambda>x. toInt16 (times32768 x)) samples"
    using toInt16_range by (simp add: signed16_id)
  finally show ?thesis .
qed

lemma length_pcmBytes: "length (pcmBytes samples) = 2 * length samples"
  using length_concat_int16Bytes [of "map (\<lambda>x. toInt16 (times32768 x)) samples"]
  by (simp add: pcmBytes_def comp_def)

lemma length_fillChannel [simp]:
  "length (fillChannel d c ch fc i cd) = length cd"
  by (induction d c ch fc i cd rule: fillChannel.induct)
     (subst fillChannel.simps, simp)

lemma fillChannel_nth:
  "j < length cd \<Longrightarrow>
   fillChannel d c ch fc i cd ! j =
     (if i \<le> j \<and> real j < fc then sampleAt d (j * c + ch) else cd ! j)"
proof (induction d c ch fc i cd rule: fillChannel.induct)
  case (1 d c ch fc i cd)
  show ?case
  proof (cases "real i < fc")
    case False
    then have n: "\<not> (i \<le> j \<and> real j < fc)" by auto
    have "fillChannel d c ch fc i cd = cd"
      by (subst fillChannel.simps) (simp add: False)
    with n show ?thesis by auto
  next
    case True
    have "fillChannel d c ch fc i cd ! j =
          fillChannel d c ch fc (Suc i) (cd[i := sampleAt d (i * c + ch)]) ! j"
      by (subst fillChannel.simps) (simp add: True)
    also have "\<dots> = (if Suc i \<le> j \<and> real j < fc then sampleAt d (j * c + ch)
                      else cd[i := sampleAt d (i * c + ch)] ! j)"
      using "1.IH" [OF True] "1.prems" by simp
    also have "\<dots> = (if i \<le> j \<and> real j < fc then sampleAt d (j * c + ch) else cd ! j)"
      using True "1.prems" by (cases "i = j") (auto simp: nth_list_update)
    finally show ?thesis .
  qed
qed

lemma toIntegerTrunc_of_nat_div:
  "toIntegerTrunc (real n / real c) = int (n div c)"
proof -
  have "0 \<le> real n / real c" by simp
  then have "toIntegerTrunc (real n / real c) = \<lfloor>real n / real c\<rfloor>"
    by (simp add: toIntegerTrunc_def)
  also have "\<dots> = int (n div c)" by (simp add: floor_divide_of_nat_eq)
  finally show ?thesis .
qed

lemma fillChannel_map:
  assumes "0 < c"
  shows "fillChannel d c ch (real n / real c) 0 (replicate (n div c) (Finite 0)) =
           map (\<lambda>i. sampleAt d (i * c + ch)) [0..<n div c]"
proof (rule nth_equalityI)
  show "length (fillChannel d c ch (real n / real c) 0 (replicate (n div c) (Finite 0))) =
        length (map (\<lambda>i. sampleAt d (i * c + ch)) [0..<n div c])" by simp
next
  fix j assume "j < length (fillChannel d c ch (real n / real c) 0 (replicate (n div c) (Finite 0)))"
  then have j: "j < n div c" by simp
  then have "Suc j \<le> n div c" by simp
  then have "Suc j * c \<le> n" using assms by (simp only: less_eq_div_iff_mult_less_eq)
  then have "j * c < n" using assms by simp
  then have "real j * real c < real n" by (metis of_nat_less_iff of_nat_mult)
  then have "real j < real n / real c" using assms by (simp add: pos_less_divide_eq)
  then show "fillChannel d c ch (real n / real c) 0 (replicate (n div c) (Finite 0)) ! j =
        map (\<lambda>i. sampleAt d (i * c + ch)) [0..<n div c] ! j"
    using j by (simp add: fillChannel_nth)
qed

lemma decodeAudioData_eq:
  "decodeAudioData bytes rate numChannels =
     (if odd (length bytes) then Inl RangeError
      else if numChannels = 0 \<or> length bytes div 2 div numChannels = 0 then Inl NotSupportedError
      else Inr \<lparr>sampleRate = rate,
                channels = map (\<lambda>channel. map (\<lambda>i. sampleAt (bytesInt16 bytes) (i * numChannels + channel))
                                              [0..<length bytes div 2 div numChannels])
                             [0..<numChannels]\<rparr>)"
proof (cases "numChannels = 0")
  case True
  then show ?thesis by (simp add: decodeAudioData_def Let_def)
next
  case False
  then have c: "0 < numChannels" by simp
  show ?thesis
    by (simp add: decodeAudioData_def Let_def length_bytesInt16 toIntegerTrunc_of_nat_div
          fillChannel_map [OF c])
qed

lemma sampleAt_map: "map (sampleAt d) [0..<length d] = map (\<lambda>v. Finite (real_of_int v / 32768)) d"
  by (rule nth_equalityI) (simp_all add: sampleAt_def)

lemma decodeAudioData_mono:
  "decodeAudioData bytes rate 1 =
     (if odd (length bytes) then Inl RangeError
      else if bytes = [] then Inl NotSupportedError
      else Inr \<lparr>sampleRate = rate,
                channels = [map (\<lambda>v. Finite (real_of_int v / 32768)) (bytesInt16 bytes)]\<rparr>)"
proof -
  have e: "even (length bytes) \<Longrightarrow> length bytes div 2 = 0 \<longleftrightarrow> bytes = []"
    by (cases bytes) auto
  have "map (\<lambda>i. sampleAt (bytesInt16 bytes) i) [0..<length bytes div 2] =
        map (\<lambda>v. Finite (real_of_int v / 32768)) (bytesInt16 bytes)"
    using sampleAt_map [of "bytesInt16 bytes"] by (simp add: length_bytesInt16)
  then show ?thesis using e by (simp add: decodeAudioData_eq)
qed

lemma trunc_error: "\<bar>real_of_int (toIntegerTrunc y) - y\<bar> < 1"
  unfolding toIntegerTrunc_def by (simp split: if_splits) linarith

lemma trunc_in_range:
  assumes "- 32768 \<le> y" "y < 32768"
  shows "- 32768 \<le> toIntegerTrunc y \<and> toIntegerTrunc y \<le> 32767"
proof (cases "0 \<le> y")
  case True
  then have "toIntegerTrunc y = \<lfloor>y\<rfloor>" by (simp add: toIntegerTrunc_def)
  moreover have "\<lfloor>y\<rfloor> < 32768" using assms(2) by (simp add: floor_less_iff)
  moreover have "0 \<le> \<lfloor>y\<rfloor>" using True by simp
  ultimately show ?thesis by simp
next
  case False
  then have "toIntegerTrunc y = \<lceil>y\<rceil>" by (simp add: toIntegerTrunc_def)
  moreover have "- 32768 \<le> \<lceil>y\<rceil>" using assms(1) by (simp add: le_ceiling_iff)
  moreover have "\<lceil>y\<rceil> \<le> 0" using False by (simp add: ceiling_le_iff)
  ultimately show ?thesis by simp
qed

lemma roundTrip_eq:
  "roundTrip frame =
     (if frame = [] then Inl NotSupportedError
      else Inr \<lparr>sampleRate = 16000,
                channels = [map (\<lambda>x. Finite (real_of_int (toInt16 (times32768 x)) / 32768)) frame]\<rparr>)"
proof -
  have "pcmBytes frame = [] \<longleftrightarrow> frame = []"
    using length_pcmBytes [of frame] by (metis length_0_conv mult_is_0 zero_neq_numeral)
  then show ?thesis
    by (simp add: roundTrip_def createBlob_eq decode_b64groups [OF pcmBytes_bound]
          decodeAudioData_mono length_pcmBytes bytesInt16_pcmBytes comp_def del: One_nat_def)
qed

section \<open>C3: encoding and decoding a frame\<close>

lemma scaled_error:
  assumes "\<bar>t - x * 32768\<bar> < (1::real)"
  shows "\<bar>t / 32768 - x\<bar> < 1 / 32768"
proof -
  have "t / 32768 - x = (t - x * 32768) / 32768" by (simp add: diff_divide_distrib)
  then have "\<bar>t / 32768 - x\<bar> = \<bar>t - x * 32768\<bar> / 32768" by (simp only: abs_divide abs_numeral)
  also have "\<dots> < 1 / 32768" using assms by (simp add: divide_strict_right_mono)
  finally show ?thesis .
qed


lemma sample_error:
  assumes "- 1 \<le> x" "x < 1"
  shows "\<bar>real_of_int (toInt16 (times32768 (Finite x))) / 32768 - x\<bar> < 1 / 32768"
proof -
  have r: "- 32768 \<le> x * 32768" "x * 32768 < 32768" using assms by simp_all
  have "toInt16 (times32768 (Finite x)) = toIntegerTrunc (x * 32768)"
    using trunc_in_range [OF r] by (simp add: signed16_id)
  moreover have "\<bar>real_of_int (toIntegerTrunc (x * 32768)) - x * 32768\<bar> < 1"
    by (rule trunc_error)
  ultimately have "\<bar>real_of_int (toInt16 (times32768 (Finite x))) - x * 32768\<bar> < 1"
    by (simp only:)
  then show ?thesis by (rule scaled_error)
qed

text \<open>
  Claim C3, as stated, fails: the sample \<open>1.0\<close> lies in \<open>[-1.0, 1.0]\<close>, is scaled to
  \<open>32768\<close>, wraps to \<open>-32768\<close> in the \<open>Int16Array\<close> and is decoded as \<open>-1.0\<close>, a
  difference of 2.
\<close>

theorem round_trip_counterexample:
  "roundTrip [Finite 1] = Inr \<lparr>sampleRate = 16000, channels = [[Finite (- 1)]]\<rparr> \<and>
   \<not> \<bar>(- 1) - (1::real)\<bar> \<le> 1 / 32768"
  by (simp add: roundTrip_eq toIntegerTrunc_def signed16_def)

text \<open>
  Claim C3, amended. For every non-empty frame whose samples lie in \<open>[-1.0, 1.0)\<close>,
  encoding and then decoding at the same rate with one channel succeeds and gives a
  buffer of one channel with as many samples, each less than \<open>1/32768\<close> from the
  original.
\<close>

theorem round_trip_half_open:
  assumes "xs \<noteq> []" and "\<forall>x \<in> set xs. - 1 \<le> x \<and> x < 1"
  shows "\<exists>ys. roundTrip (map Finite xs) = Inr \<lparr>sampleRate = 16000, channels = [map Finite ys]\<rparr> \<and>
              length ys = length xs \<and>
              (\<forall>i < length xs. \<bar>ys ! i - xs ! i\<bar> < 1 / 32768)"
proof -
  let ?ys = "map (\<lambda>x. real_of_int (toInt16 (times32768 (Finite x))) / 32768) xs"
  have "roundTrip (map Finite xs) = Inr \<lparr>sampleRate = 16000, channels = [map Finite ?ys]\<rparr>"
    using assms(1) by (simp add: roundTrip_eq comp_def)
  moreover have "\<forall>i < length xs. \<bar>?ys ! i - xs ! i\<bar> < 1 / 32768"
  proof (intro allI impI)
    fix i assume i: "i < length xs"
    then have "- 1 \<le> xs ! i" "xs ! i < 1" using assms(2) by simp_all
    from sample_error [OF this] show "\<bar>?ys ! i - xs ! i\<bar> < 1 / 32768"
      using i by (simp only: nth_map)
  qed
  ultimately show ?thesis by (intro exI [of _ ?ys]) simp
qed

theorem round_trip_half_open_witness:
  "\<exists>ys. roundTrip (map Finite [1 / 2, - 1, 1 / 3]) =
           Inr \<lparr>sampleRate = 16000, channels = [map Finite ys]\<rparr> \<and>
        length ys = length [1 / 2, - 1, 1 / 3 :: real] \<and>
        (\<forall>i < length [1 / 2, - 1, 1 / 3 :: real]. \<bar>ys ! i - [1 / 2, - 1, 1 / 3] ! i\<bar> < 1 / 32768)"
  using round_trip_half_open [of "[1 / 2, - 1, 1 / 3]"] by simp

section \<open>C4: the wire format of \<open>createBlob\<close>\<close>

lemma signed16_cong: "signed16 n mod 65536 = n mod 65536"
proof -
  have "(n mod 65536 - 65536) mod 65536 = n mod 65536"
    by (metis mod_diff_right_eq mod_self diff_zero mod_mod_trivial)
  then show ?thesis by (simp add: signed16_def Let_def)
qed

lemma pcmBytes_Cons:
  "pcmBytes (x # xs) = int16Bytes (toInt16 (times32768 x)) @ pcmBytes xs"
  by (simp add: pcmBytes_def)

lemma pcmBytes_nth:
  "i < length frame \<Longrightarrow>
   pcmBytes frame ! (2 * i) = nat (toInt16 (times32768 (frame ! i)) mod 65536) mod 256 \<and>
   pcmBytes frame ! (2 * i + 1) = nat (toInt16 (times32768 (frame ! i)) mod 65536) div 256"
proof (induction frame arbitrary: i)
  case Nil
  then show ?case by simp
next
  case (Cons x xs)
  show ?case
  proof (cases i)
    case 0
    then show ?thesis by (simp add: pcmBytes_Cons int16Bytes_def Let_def)
  next
    case (Suc j)
    then have j: "j < length xs" using Cons.prems by simp
    have "2 * i = 2 + 2 * j" "2 * i + 1 = 2 + (2 * j + 1)" using Suc by simp_all
    then show ?thesis using Cons.IH [OF j] Suc
      by (simp only: pcmBytes_Cons nth_append length_int16Bytes nth_Cons_Suc) simp
  qed
qed

text \<open>
  Claim C4, as stated, fails: the sample \<open>1.5\<close> is not clamped to \<open>32767\<close>. It is
  scaled to \<open>49152\<close> and wraps to \<open>-16384\<close>, the bytes \<open>00 C0\<close>.
\<close>

theorem createBlob_wire_format_counterexample:
  "createBlob [Finite (3 / 2)] =
     Inr \<lparr>data = js ''AMA='', mimeType = js ''audio/pcm;rate=16000''\<rparr> \<and>
   decode (js ''AMA='') = Inr [0, 192] \<and> bytesInt16 [0, 192] = [- 16384] \<and>
   clampInt16 (3 / 2 * 32768) = 32767"
proof -
  have "createBlob [Finite (3 / 2)] =
     Inr \<lparr>data = js ''AMA='', mimeType = js ''audio/pcm;rate=16000''\<rparr>"
    by (simp add: createBlob_eq pcmBytes_def toIntegerTrunc_def signed16_def int16Bytes_def
          b64char_def js_def)
  moreover have "decode (js ''AMA='') = Inr [0, 192]" by code_simp
  ultimately show ?thesis
    by (simp add: signed16_def clampInt16_def toIntegerTrunc_def)
qed

text \<open>
  Claim C4, amended. \<open>createBlob\<close> never fails. Its result is tagged
  \<open>audio/pcm;rate=16000\<close>, and its data is the base64 text of two bytes for each sample,
  the low byte first, of the 16-bit integer of the sample: always in the signed 16-bit
  range, \<open>0\<close> for a non-finite sample, and for a finite one congruent modulo \<open>2^16\<close> to
  the sample times \<open>32768\<close> truncated towards zero. A sample in \<open>[-1.0, 1.0)\<close> is
  converted without wrap-around; a sample outside is not clamped.
\<close>

theorem createBlob_wire_format:
  "createBlob frame =
     Inr \<lparr>data = b64groups (pcmBytes frame), mimeType = js ''audio/pcm;rate=16000''\<rparr> \<and>
   decode (b64groups (pcmBytes frame)) = Inr (pcmBytes frame) \<and>
   length (pcmBytes frame) = 2 * length frame \<and>
   (\<forall>i < length frame.
      pcmBytes frame ! (2 * i) = nat (toInt16 (times32768 (frame ! i)) mod 65536) mod 256 \<and>
      pcmBytes frame ! (2 * i + 1) = nat (toInt16 (times32768 (frame ! i)) mod 65536) div 256) \<and>
   - 32768 \<le> toInt16 (times32768 v) \<and> toInt16 (times32768 v) \<le> 32767 \<and>
   toInt16 (times32768 (Finite x)) mod 65536 = toIntegerTrunc (x * 32768) mod 65536 \<and>
   toInt16 (times32768 NonFinite) = 0 \<and>
   (- 1 \<le> x \<and> x < 1 \<longrightarrow> toInt16 (times32768 (Finite x)) = toIntegerTrunc (x * 32768))"
proof -
  have "- 1 \<le> x \<and> x < 1 \<longrightarrow> toInt16 (times32768 (Finite x)) = toIntegerTrunc (x * 32768)"
  proof
    assume "- 1 \<le> x \<and> x < 1"
    then have r: "- 32768 \<le> x * 32768" "x * 32768 < 32768" by simp_all
    show "toInt16 (times32768 (Finite x)) = toIntegerTrunc (x * 32768)"
      using trunc_in_range [OF r] by (simp add: signed16_id)
  qed
  then show ?thesis
    using toInt16_range [of "times32768 v"] pcmBytes_nth [of _ frame]
    by (simp add: createBlob_eq decode_b64groups [OF pcmBytes_bound] length_pcmBytes signed16_cong)
qed

theorem createBlob_wire_format_witness:
  "createBlob [Finite (1 / 2), Finite 1, NonFinite] =
     Inr \<lparr>data = b64groups (pcmBytes [Finite (1 / 2), Finite 1, NonFinite]),
          mimeType = js ''audio/pcm;rate=16000''\<rparr> \<and>
   pcmBytes [Finite (1 / 2), Finite 1, NonFinite] = [0, 64, 0, 128, 0, 0] \<and>
   toInt16 (times32768 (Finite (1 / 2))) = 16384 \<and>
   toInt16 (times32768 (Finite 1)) = - 32768"
proof -
  have "pcmBytes [Finite (1 / 2), Finite 1, NonFinite] = [0, 64, 0, 128, 0, 0]"
    by (simp add: pcmBytes_def toIntegerTrunc_def signed16_def int16Bytes_def)
  moreover have "toIntegerTrunc (1 / 2 * 32768) = 16384" by (simp add: toIntegerTrunc_def)
  moreover have "toInt16 (times32768 (Finite 1)) = - 32768"
    by (simp add: toIntegerTrunc_def signed16_def)
  ultimately show ?thesis
    using createBlob_wire_format [of "[Finite (1 / 2), Finite 1, NonFinite]" "Finite 1" "1 / 2"]
    by simp
qed

section \<open>C5: decoding an inbound chunk\<close>

lemma decodeAudioData_fails_iff:
  "(\<exists>e. decodeAudioData bytes rate numChannels = Inl e) \<longleftrightarrow>
     odd (length bytes) \<or> numChannels = 0 \<or> length bytes div 2 div numChannels = 0"
  by (simp add: decodeAudioData_eq)

lemma decodeAudioData_fails_mono_iff:
  "(\<exists>e. decodeAudioData bytes 24000 1 = Inl e) \<longleftrightarrow> odd (length bytes) \<or> bytes = []"
  by (simp add: decodeAudioData_mono del: One_nat_def)

lemma decodeAudioData_shape:
  "decodeAudioData bytes rate numChannels = Inr buf \<Longrightarrow>
   sampleRate buf = rate \<and> length (channels buf) = numChannels \<and>
   (\<forall>ch \<in> set (channels buf). length ch = length bytes div 2 div numChannels)"
  by (auto simp: decodeAudioData_eq split: if_splits)

lemma onmessage_audio:
  assumes "audioData m = Some audio" "audio \<noteq> []"
  shows "onmessage k m s = onAudio k audio (onmessage k (m\<lparr>audioData := None\<rparr>) s)"
  using assms by (simp add: onmessage_def Let_def)

lemma onAudio_fail:
  "decodeChunk audio 24000 1 = Inl e \<Longrightarrow> onAudio k audio s = s\<lparr>rejections := rejections s @ [e]\<rparr>"
  by (auto simp: decodeChunk_def onAudio_def reject_def split: sum.splits)

lemma onAudio_ok:
  "decodeChunk audio 24000 1 = Inr buf \<Longrightarrow>
   onAudio k audio s = updSession k (\<lambda>x. x\<lparr>played := played x @ [buf]\<rparr>) s"
  by (auto simp: decodeChunk_def onAudio_def split: sum.splits)

lemma onmessage_audioMsg: "a \<noteq> [] \<Longrightarrow> onmessage k (audioMsg a) s = onAudio k a s"
  by (simp add: onmessage_def audioMsg_def)

text \<open>
  Claim C5, as stated, fails. Six bytes with two channels are not a multiple of
  \<open>2 * channelCount\<close>, yet \<open>decodeAudioData\<close> returns a buffer of one frame and drops the
  third sample; and no bytes with one channel are a multiple, yet it fails.
\<close>

theorem inbound_chunk_counterexample:
  "decodeAudioData [0, 64, 0, 32, 0, 16] 24000 2 =
     Inr \<lparr>sampleRate = 24000, channels = [[Finite (1 / 2)], [Finite (1 / 4)]]\<rparr> \<and>
   \<not> 2 * 2 dvd length [0, 64, 0, 32, 0, 16 :: nat] \<and>
   decodeAudioData [] 24000 1 = Inl NotSupportedError \<and>
   2 * 1 dvd length ([] :: nat list)"
proof -
  have "decodeAudioData [0, 64, 0, 32, 0, 16] 24000 2 =
     Inr \<lparr>sampleRate = 24000, channels = [[Finite (1 / 2)], [Finite (1 / 4)]]\<rparr>"
    by (simp add: decodeAudioData_eq sampleAt_def signed16_def upt_rec)
  moreover have "decodeAudioData [] 24000 1 = Inl NotSupportedError"
    by (simp add: decodeAudioData_eq)
  moreover have "\<not> 2 * 2 dvd length [0, 64, 0, 32, 0, 16 :: nat]"
  proof -
    have l: "length [0, 64, 0, 32, 0, 16 :: nat] = 6" by simp
    show ?thesis unfolding l by simp
  qed
  moreover have "2 * 1 dvd length ([] :: nat list)" by simp
  ultimately show ?thesis by blast
qed

text \<open>
  Claim C5, amended. \<open>decodeAudioData\<close> has no precondition check of its own: for a
  sample rate and a channel count that every implementation supports, it fails
  exactly when the number of bytes is odd, when there is no channel, or when the
  samples do not fill one frame; at 24000 Hz with one channel, as \<open>onmessage\<close> calls
  it, exactly when the number of bytes is odd or zero. A decoded buffer has the requested rate and
  channel count and the whole number of frames that fit, a trailing partial frame
  being dropped. A message whose chunk fails to decode is handled like the message
  without the chunk, and the error is thrown out of \<open>onmessage\<close>: nothing is played and
  nothing else changes. A chunk that decodes is played. After a failing chunk a valid
  one is played, and the recording flag and the error message stay as they were.
\<close>

theorem inbound_chunk_decoding:
  "(supportedParams rate numChannels \<longrightarrow>
      ((\<exists>e. decodeAudioData bytes rate numChannels = Inl e) \<longleftrightarrow>
         odd (length bytes) \<or> numChannels = 0 \<or> length bytes div 2 div numChannels = 0)) \<and>
   ((\<exists>e. decodeAudioData bytes 24000 1 = Inl e) \<longleftrightarrow> odd (length bytes) \<or> bytes = []) \<and>
   (supportedParams rate numChannels \<and> decodeAudioData bytes rate numChannels = Inr buf \<longrightarrow>
      sampleRate buf = rate \<and> length (channels buf) = numChannels \<and>
      (\<forall>ch \<in> set (channels buf). length ch = length bytes div 2 div numChannels)) \<and>
   (audioData m = Some audio \<and> audio \<noteq> [] \<and> decodeChunk audio 24000 1 = Inl e \<longrightarrow>
      onmessage k m s =
        (onmessage k (m\<lparr>audioData := None\<rparr>) s)
          \<lparr>rejections := rejections (onmessage k (m\<lparr>audioData := None\<rparr>) s) @ [e]\<rparr>) \<and>
   (audioData m = Some audio \<and> audio \<noteq> [] \<and> decodeChunk audio 24000 1 = Inr buf' \<longrightarrow>
      onmessage k m s =
        updSession k (\<lambda>x. x\<lparr>played := played x @ [buf']\<rparr>)
          (onmessage k (m\<lparr>audioData := None\<rparr>) s)) \<and>
   (bad \<noteq> [] \<and> decodeChunk bad 24000 1 = Inl e \<and> good \<noteq> [] \<and>
    decodeChunk good 24000 1 = Inr buf' \<and> k < length (sessions s) \<longrightarrow>
      played (sessions (onmessage k (audioMsg good) (onmessage k (audioMsg bad) s)) ! k) =
        played (sessions s ! k) @ [buf'] \<and>
      isRecording (onmessage k (audioMsg good) (onmessage k (audioMsg bad) s)) = isRecording s \<and>
      error (onmessage k (audioMsg good) (onmessage k (audioMsg bad) s)) = error s)"
proof -
  have seq: "played (sessions (onmessage k (audioMsg good) (onmessage k (audioMsg bad) s)) ! k) =
        played (sessions s ! k) @ [buf'] \<and>
      isRecording (onmessage k (audioMsg good) (onmessage k (audioMsg bad) s)) = isRecording s \<and>
      error (onmessage k (audioMsg good) (onmessage k (audioMsg bad) s)) = error s"
    if "bad \<noteq> []" "decodeChunk bad 24000 1 = Inl e" "good \<noteq> []"
      "decodeChunk good 24000 1 = Inr buf'" "k < length (sessions s)"
    using that
    by (simp add: onmessage_audioMsg onAudio_fail onAudio_ok nth_updSession del: One_nat_def)
  show ?thesis
    using decodeAudioData_fails_iff [of bytes rate numChannels]
      decodeAudioData_fails_mono_iff [of bytes]
      decodeAudioData_shape [of bytes rate numChannels buf] seq
    by (auto simp: onmessage_audio onAudio_fail onAudio_ok simp del: One_nat_def)
qed

theorem inbound_chunk_decoding_witness:
  "supportedParams 24000 2 \<and>
   \<not> (\<exists>e. decodeAudioData [0, 64, 0, 32, 0, 16] 24000 2 = Inl e) \<and>
   decodeChunk (js ''AA=='') 24000 1 = Inl RangeError \<and>
   decodeChunk (js ''AEAAgA=='') 24000 1 =
     Inr \<lparr>sampleRate = 24000, channels = [[Finite (1 / 2), Finite (- 1)]]\<rparr> \<and>
   played (sessions (onmessage 0 (audioMsg (js ''AEAAgA==''))
                      (onmessage 0 (audioMsg (js ''AA==''))
                         (run [StartSession Granted, OnOpen 0] initial))) ! 0) =
     [\<lparr>sampleRate = 24000, channels = [[Finite (1 / 2), Finite (- 1)]]\<rparr>] \<and>
   isRecording (onmessage 0 (audioMsg (js ''AEAAgA==''))
                  (onmessage 0 (audioMsg (js ''AA==''))
                     (run [StartSession Granted, OnOpen 0] initial)))"
proof -
  let ?s = "run [StartSession Granted, OnOpen 0] initial"
  let ?buf = "\<lparr>sampleRate = 24000, channels = [[Finite (1 / 2), Finite (- 1)]]\<rparr>"
  have d1: "decode (js ''AA=='') = Inr [0]" by code_simp
  have d2: "decode (js ''AEAAgA=='') = Inr [0, 64, 0, 128]" by code_simp
  have bad: "decodeChunk (js ''AA=='') 24000 1 = Inl RangeError"
    by (simp add: decodeChunk_def d1 decodeAudioData_eq)
  have good: "decodeChunk (js ''AEAAgA=='') 24000 1 = Inr ?buf"
    by (simp add: decodeChunk_def d2 decodeAudioData_mono signed16_def del: One_nat_def)
  have ne: "js ''AA=='' \<noteq> []" "js ''AEAAgA=='' \<noteq> []" by (simp_all add: js_def)
  have s: "length (sessions ?s) = 1" "played (sessions ?s ! 0) = []" "isRecording ?s"
    by (simp_all add: run_def startSession_def onopen_def connected_def initial_def newSession_def
          Let_def updSession_def)
  show ?thesis
    using inbound_chunk_decoding [of 24000 2 "[0, 64, 0, 32, 0, 16]" _ _ "js ''AA==''" RangeError
        0 ?s ?buf "js ''AA==''" "js ''AEAAgA==''"] bad good ne s
    by (simp add: supportedParams_def)
qed

section \<open>C8: stopping twice\<close>

lemma stopSession_stopped: "stopped s \<Longrightarrow> stopSession s = s"
  by (simp add: stopped_def stopSession_def stopTracks_def disconnectNodes_def
        closeInputContext_def closeOutputContext_def resetAndFlush_def Let_def)

lemma refs_stopTracks:
  "mediaStreamRef (stopTracks s) = None"
  by (simp add: stopTracks_def split: option.splits)

lemma refs_disconnectNodes [simp]:
  "mediaStreamRef (disconnectNodes s) = mediaStreamRef s"
  by (simp add: disconnectNodes_def split: option.splits)

lemma refs_closeContexts [simp]:
  "mediaStreamRef (closeContexts s) = mediaStreamRef s"
  by (simp add: closeContexts_def Let_def split: option.splits)

lemma stopped_resetAndFlush: "mediaStreamRef s = None \<Longrightarrow> stopped (resetAndFlush s)"
  by (simp add: stopped_def resetAndFlush_def Let_def)

lemma stopped_stopSession: "refsOpen s \<Longrightarrow> stopped (stopSession s)"
  by (simp add: stopSession_ok stopped_resetAndFlush refs_stopTracks)

lemma rejections_stopSession: "refsOpen s \<Longrightarrow> rejections (stopSession s) = rejections s"
proof -
  have a: "rejections (stopTracks t) = rejections t" for t
    by (simp add: stopTracks_def split: option.splits)
  have b: "rejections (disconnectNodes t) = rejections t" for t
    by (simp add: disconnectNodes_def split: option.splits)
  have c: "rejections (closeContexts t) = rejections t" for t
    by (simp add: closeContexts_def Let_def split: option.splits)
  have d: "rejections (resetAndFlush t) = rejections t" for t
    by (simp add: resetAndFlush_def Let_def)
  assume "refsOpen s"
  then show ?thesis by (simp add: stopSession_ok a b c d)
qed

text \<open>
  Claim C8. In every state that a run reaches, \<open>stopSession\<close> completes without an
  error, and a second call right after it changes nothing: the whole state, with the
  committed count, the turn buffer and every ref, is the same, and no error is raised.
\<close>

theorem stop_idempotent:
  "stopSession (stopSession (run evs initial)) = stopSession (run evs initial) \<and>
   rejections (stopSession (run evs initial)) = rejections (run evs initial) \<and>
   rejections (stopSession (stopSession (run evs initial))) = rejections (run evs initial) \<and>
   (refsOpen s \<longrightarrow> stopSession (stopSession s) = stopSession s \<and>
                   rejections (stopSession s) = rejections s)"
proof -
  have r: "refsOpen (run evs initial)" by (rule refsOpen_run [OF refsOpen_initial])
  have g: "stopSession (stopSession t) = stopSession t" if "refsOpen t" for t
    by (rule stopSession_stopped [OF stopped_stopSession [OF that]])
  show ?thesis
    using g [OF r] g [of s] rejections_stopSession [OF r] rejections_stopSession [of s]
    by simp
qed

theorem stop_idempotent_witness:
  "refsOpen (run [StartSession Granted, OnOpen 0, OnMessage 0 (delta (js ''practice''))] initial) \<and>
   stopSession (stopSession (run [StartSession Granted, OnOpen 0, OnMessage 0 (delta (js ''practice''))] initial))
     = stopSession (run [StartSession Granted, OnOpen 0, OnMessage 0 (delta (js ''practice''))] initial) \<and>
   committedCountRef (stopSession (run [StartSession Granted, OnOpen 0, OnMessage 0 (delta (js ''practice''))] initial)) = 1 \<and>
   inputCtxClosed (sessions (stopSession (run [StartSession Granted, OnOpen 0, OnMessage 0 (delta (js ''practice''))] initial)) ! 0)"
proof -
  let ?s = "run [StartSession Granted, OnOpen 0, OnMessage 0 (delta (js ''practice''))] initial"
  have r: "refsOpen ?s" by code_simp
  have c: "committedCountRef (stopSession ?s) = 1" by code_simp
  have i: "inputCtxClosed (sessions (stopSession ?s) ! 0)" by code_simp
  show ?thesis
    using stop_idempotent [of "[StartSession Granted, OnOpen 0, OnMessage 0 (delta (js ''practice''))]" ?s]
      r c i by simp
qed

section \<open>C9: \<open>stopSession\<close> and the remote session\<close>

lemma map_upd_field:
  "(\<And>x. g (f x) = g x) \<Longrightarrow> map g (xs[k := f (xs ! k)]) = map g xs"
  by (rule nth_equalityI) (simp_all add: nth_upd)

lemma map_updSession:
  "(\<And>x. g (f x) = g x) \<Longrightarrow> map g (sessions (updSession k f s)) = map g (sessions s)"
  by (simp add: updSession_def map_upd_field)

lemma remote_stopTracks: "map remotePart (sessions (stopTracks s)) = map remotePart (sessions s)"
  by (simp add: stopTracks_def map_updSession remotePart_def split: option.splits)

lemma remote_disconnectNodes:
  "map remotePart (sessions (disconnectNodes s)) = map remotePart (sessions s)"
  by (simp add: disconnectNodes_def map_updSession remotePart_def split: option.splits)

lemma remote_closeInputContext:
  "closeInputContext s = Inr s' \<Longrightarrow> map remotePart (sessions s') = map remotePart (sessions s)"
  by (auto simp: closeInputContext_def map_updSession remotePart_def split: option.splits if_splits)

lemma remote_closeOutputContext:
  "closeOutputContext s = Inr s' \<Longrightarrow> map remotePart (sessions s') = map remotePart (sessions s)"
  by (auto simp: closeOutputContext_def map_updSession remotePart_def split: option.splits if_splits)

lemma remote_resetAndFlush [simp]: "sessions (resetAndFlush s) = sessions s"
  by (simp add: resetAndFlush_def Let_def)

lemma remote_reject [simp]: "sessions (reject e s) = sessions s"
  by (simp add: reject_def)

lemma remote_stopSession:
  "map remotePart (sessions (stopSession s)) = map remotePart (sessions s)"
proof -
  let ?s2 = "disconnectNodes (stopTracks s)"
  have r2: "map remotePart (sessions ?s2) = map remotePart (sessions s)"
    by (simp add: remote_disconnectNodes remote_stopTracks)
  show ?thesis
  proof (cases "closeInputContext ?s2")
    case (Inl e)
    then show ?thesis using r2 by (simp add: stopSession_def Let_def)
  next
    case (Inr s3)
    note in3 = this
    have r3: "map remotePart (sessions s3) = map remotePart (sessions s)"
      using remote_closeInputContext [OF Inr] r2 by simp
    show ?thesis
    proof (cases "closeOutputContext s3")
      case (Inl e)
      with in3 r3 show ?thesis by (simp add: stopSession_def Let_def)
    next
      case (Inr s4)
      with in3 r3 remote_closeOutputContext [OF Inr] show ?thesis
        by (simp add: stopSession_def Let_def)
    qed
  qed
qed

lemma sessionRef_stopSession: "sessionRef (stopSession s) = sessionRef s"
proof -
  have a: "sessionRef (stopTracks t) = sessionRef t" for t
    by (simp add: stopTracks_def split: option.splits)
  have b: "sessionRef (disconnectNodes t) = sessionRef t" for t
    by (simp add: disconnectNodes_def split: option.splits)
  have c: "closeInputContext t = Inr t' \<Longrightarrow> sessionRef t' = sessionRef t" for t t'
    by (auto simp: closeInputContext_def split: option.splits if_splits)
  have d: "closeOutputContext t = Inr t' \<Longrightarrow> sessionRef t' = sessionRef t" for t t'
    by (auto simp: closeOutputContext_def split: option.splits if_splits)
  have e: "sessionRef (resetAndFlush t) = sessionRef t" for t
    by (simp add: resetAndFlush_def Let_def)
  have f: "sessionRef (reject x t) = sessionRef t" for x t
    by (simp add: reject_def)
  show ?thesis
    by (auto simp: stopSession_def Let_def a b e f dest!: c d split: sum.splits)
qed

lemma closed_step:
  "map sessionClosed (sessions (step e s)) =
     map sessionClosed (sessions s) @ (case e of StartSession r \<Rightarrow> [False] | _ \<Rightarrow> [])"
proof (cases e)
  case (StartSession r)
  then show ?thesis by (cases r) (simp_all add: startSession_def Let_def newSession_def)
next
  case StopSession
  have "map sessionClosed (sessions (stopSession s)) = map sessionClosed (sessions s)"
    using arg_cong [OF remote_stopSession [of s], of "map (\<lambda>(a, b, c, d, e, f). f)"]
    by (simp add: remotePart_def comp_def)
  with StopSession show ?thesis by simp
next
  case (OnMessage k m)
  have a: "map sessionClosed (sessions (onAudio k x t)) = map sessionClosed (sessions t)" for x t
    by (simp add: onAudio_def map_updSession split: sum.splits)
  have b: "sessions (onTurnComplete t) = sessions t" for t
    by (simp add: onTurnComplete_def Let_def)
  have c: "sessions (onTranscription x t) = sessions t" for x t
    by (simp add: onTranscription_def setTranscript_def Let_def)
  have "map sessionClosed (sessions (onmessage k m s)) = map sessionClosed (sessions s)"
    by (simp add: onmessage_def Let_def a b c split: option.splits)
  with OnMessage show ?thesis by simp
next
  case (AudioProcess k f)
  have "map sessionClosed (sessions (onaudioprocess k f s)) = map sessionClosed (sessions s)"
    by (simp add: onaudioprocess_def map_updSession split: sum.splits promiseState.splits)
  with AudioProcess show ?thesis by simp
qed (simp_all add: connectResolved_def connectRejected_def onopen_def onclose_def onerror_def
       map_updSession split: promiseState.splits)

lemma closed_run:
  "\<forall>x \<in> set (sessions s). \<not> sessionClosed x \<Longrightarrow>
   \<forall>x \<in> set (sessions (run evs s)). \<not> sessionClosed x"
proof (induction evs arbitrary: s)
  case Nil
  then show ?case by (simp add: run_def)
next
  case (Cons e evs)
  have "set (map sessionClosed (sessions (step e s))) \<subseteq> insert False (set (map sessionClosed (sessions s)))"
    by (auto simp: closed_step split: event.splits)
  then have "\<forall>x \<in> set (sessions (step e s)). \<not> sessionClosed x"
    using Cons.prems by auto
  from Cons.IH [OF this] show ?case by (simp add: run_def)
qed

lemma stop_refs [simp]:
  "inputAudioContextRef (stopTracks s) = inputAudioContextRef s"
  "audioContextRef (stopTracks s) = audioContextRef s"
  "sourceRef (stopTracks s) = sourceRef s"
  "processorRef (stopTracks s) = processorRef s"
  "inputAudioContextRef (disconnectNodes s) = inputAudioContextRef s"
  "audioContextRef (disconnectNodes s) = audioContextRef s"
  by (simp_all add: stopTracks_def disconnectNodes_def split: option.splits)

lemma length_sessions_stop [simp]:
  "length (sessions (stopTracks s)) = length (sessions s)"
  "length (sessions (disconnectNodes s)) = length (sessions s)"
  "length (sessions (closeContexts s)) = length (sessions s)"
  by (simp_all add: stopTracks_def disconnectNodes_def closeContexts_def Let_def split: option.splits)

lemma nth_stopTracks:
  "j < length (sessions s) \<Longrightarrow>
   sessions (stopTracks s) ! j =
     (if mediaStreamRef s = Some j then (sessions s ! j)\<lparr>tracksStopped := True\<rparr> else sessions s ! j)"
  by (auto simp: stopTracks_def nth_updSession split: option.splits)

lemma nth_disconnectNodes:
  "j < length (sessions s) \<Longrightarrow>
   sessions (disconnectNodes s) ! j =
     (let x = sessions s ! j;
          x1 = (if sourceRef s = Some j \<and> processorRef s \<noteq> None
                then x\<lparr>sourceDisconnected := True\<rparr> else x)
      in if processorRef s = Some j \<and> sourceRef s \<noteq> None
         then x1\<lparr>processorDisconnected := True\<rparr> else x1)"
  by (auto simp: disconnectNodes_def nth_updSession Let_def split: option.splits)

lemma nth_closeContexts:
  "j < length (sessions s) \<Longrightarrow>
   sessions (closeContexts s) ! j =
     (let x = sessions s ! j;
          x1 = (if inputAudioContextRef s = Some j then x\<lparr>inputCtxClosed := True\<rparr> else x)
      in if audioContextRef s = Some j then x1\<lparr>outputCtxClosed := True\<rparr> else x1)"
  by (auto simp: closeContexts_def nth_updSession Let_def split: option.splits)

lemma stop_releases:
  assumes r: "refsOpen s" and j: "j < length (sessions s)"
  shows "tracksStopped (sessions (stopSession s) ! j) =
           (tracksStopped (sessions s ! j) \<or> mediaStreamRef s = Some j)"
    and "sourceDisconnected (sessions (stopSession s) ! j) =
           (sourceDisconnected (sessions s ! j) \<or> sourceRef s = Some j \<and> processorRef s \<noteq> None)"
    and "processorDisconnected (sessions (stopSession s) ! j) =
           (processorDisconnected (sessions s ! j) \<or> processorRef s = Some j \<and> sourceRef s \<noteq> None)"
    and "inputCtxClosed (sessions (stopSession s) ! j) =
           (inputCtxClosed (sessions s ! j) \<or> inputAudioContextRef s = Some j)"
    and "outputCtxClosed (sessions (stopSession s) ! j) =
           (outputCtxClosed (sessions s ! j) \<or> audioContextRef s = Some j)"
  using j
  by (auto simp: stopSession_ok [OF r] nth_closeContexts nth_disconnectNodes nth_stopTracks
        Let_def)

lemma refsValid_initial: "refsValid initial"
  by (simp add: refsValid_def initial_def)

lemma refsValid_mono:
  assumes "refsValid s" "length (sessions s) \<le> length (sessions t)"
    "mediaStreamRef t = mediaStreamRef s" "sourceRef t = sourceRef s"
    "processorRef t = processorRef s" "inputAudioContextRef t = inputAudioContextRef s"
    "audioContextRef t = audioContextRef s"
  shows "refsValid t"
  using assms by (auto simp: refsValid_def split: option.splits)

lemma refsValid_startSession: "refsValid s \<Longrightarrow> refsValid (startSession r s)"
  by (cases r) (auto simp: refsValid_def startSession_def Let_def split: option.splits)

lemma refsValid_stopped: "stopped s \<Longrightarrow> refsValid s"
  by (simp add: refsValid_def stopped_def)

lemma refsValid_onopen: "connected k s \<Longrightarrow> refsValid s \<Longrightarrow> refsValid (onopen k s)"
  by (auto simp: refsValid_def onopen_def connected_def updSession_def split: option.splits)

lemma refsValid_updSession: "refsValid (updSession k f s) = refsValid s"
  by (simp add: refsValid_def cong: option.case_cong)

lemma refsValid_reject: "refsValid (reject e s) = refsValid s"
  by (simp add: refsValid_def reject_def cong: option.case_cong)

lemma refsValid_onmessage: "refsValid (onmessage k m s) = refsValid s"
proof -
  have a: "refsValid (onAudio k x t) = refsValid t" for x t
    by (simp add: onAudio_def refsValid_updSession refsValid_reject split: sum.splits)
  have b: "refsValid (onTurnComplete t) = refsValid t" for t
    by (simp add: refsValid_def onTurnComplete_def Let_def cong: option.case_cong)
  have c: "refsValid (onTranscription x t) = refsValid t" for x t
    by (simp add: refsValid_def onTranscription_def setTranscript_def Let_def
          cong: option.case_cong)
  show ?thesis by (simp add: onmessage_def Let_def a b c split: option.splits)
qed

lemma refsValid_step:
  assumes v: "refsValid s" and r: "refsOpen s"
  shows "refsValid (step e s)"
proof (cases e)
  case (StartSession x)
  with v show ?thesis by (simp add: refsValid_startSession)
next
  case StopSession
  with refsValid_stopped [OF stopped_stopSession [OF r]] show ?thesis by simp
next
  case (ConnectResolved k)
  with v show ?thesis by (simp add: connectResolved_def refsValid_updSession)
next
  case (ConnectRejected k)
  with v show ?thesis by (simp add: connectRejected_def refsValid_updSession)
next
  case (OnOpen k)
  with v show ?thesis by (simp add: refsValid_onopen)
next
  case (OnMessage k m)
  with v show ?thesis by (simp add: refsValid_onmessage)
next
  case (OnClose k)
  with v show ?thesis by (simp add: onclose_def refsValid_def cong: option.case_cong)
next
  case (OnError k)
  with v show ?thesis by (simp add: onerror_def refsValid_def cong: option.case_cong)
next
  case (AudioProcess k f)
  with v show ?thesis
    by (simp add: onaudioprocess_def refsValid_updSession refsValid_reject split: sum.splits)
qed

lemma refsValid_run: "refsValid s \<Longrightarrow> refsOpen s \<Longrightarrow> refsValid (run evs s)"
  unfolding run_def
  by (induction evs arbitrary: s) (simp_all add: refsValid_step refsOpen_step)

text \<open>
  Claim C9. \<open>stopSession\<close> leaves \<open>sessionRef\<close> as it is and changes, of every session,
  only the local audio resources: the promise, what was sent and played, and the
  closed flag of the remote session stay. In every reachable state the refs point to
  sessions that exist, and \<open>stopSession\<close> releases exactly what they point to: it stops
  the tracks of the stream of \<open>mediaStreamRef\<close>, disconnects the source and the
  processor node when both refs are set, and closes the contexts of both context refs;
  every other local resource is as before. It clears these refs and the recording
  flag and flushes the counter. No run closes a remote session.
\<close>

theorem stop_keeps_remote_session:
  "sessionRef (stopSession s) = sessionRef s \<and>
   map remotePart (sessions (stopSession s)) = map remotePart (sessions s) \<and>
   stopped (stopSession (run evs initial)) \<and>
   counter (stopSession (run evs initial)) =
     (practiceCount (run evs initial),
      committedCountRef (run evs initial) +
      countPracticeInText (currentTurnTextRef (run evs initial)), []) \<and>
   list_all (\<lambda>x. \<not> sessionClosed x) (sessions (run evs initial)) \<and>
   refsValid (run evs initial) \<and>
   (j < length (sessions (run evs initial)) \<longrightarrow>
      tracksStopped (sessions (stopSession (run evs initial)) ! j) =
        (tracksStopped (sessions (run evs initial) ! j) \<or>
         mediaStreamRef (run evs initial) = Some j) \<and>
      sourceDisconnected (sessions (stopSession (run evs initial)) ! j) =
        (sourceDisconnected (sessions (run evs initial) ! j) \<or>
         sourceRef (run evs initial) = Some j \<and> processorRef (run evs initial) \<noteq> None) \<and>
      processorDisconnected (sessions (stopSession (run evs initial)) ! j) =
        (processorDisconnected (sessions (run evs initial) ! j) \<or>
         processorRef (run evs initial) = Some j \<and> sourceRef (run evs initial) \<noteq> None) \<and>
      inputCtxClosed (sessions (stopSession (run evs initial)) ! j) =
        (inputCtxClosed (sessions (run evs initial) ! j) \<or>
         inputAudioContextRef (run evs initial) = Some j) \<and>
      outputCtxClosed (sessions (stopSession (run evs initial)) ! j) =
        (outputCtxClosed (sessions (run evs initial) ! j) \<or>
         audioContextRef (run evs initial) = Some j))"
proof -
  have r: "refsOpen (run evs initial)" by (rule refsOpen_run [OF refsOpen_initial])
  have v: "refsValid (run evs initial)"
    by (rule refsValid_run [OF refsValid_initial refsOpen_initial])
  have c: "\<forall>x \<in> set (sessions (run evs initial)). \<not> sessionClosed x"
    by (rule closed_run) (simp add: initial_def)
  have rel: "j < length (sessions (run evs initial)) \<longrightarrow>
      tracksStopped (sessions (stopSession (run evs initial)) ! j) =
        (tracksStopped (sessions (run evs initial) ! j) \<or>
         mediaStreamRef (run evs initial) = Some j) \<and>
      sourceDisconnected (sessions (stopSession (run evs initial)) ! j) =
        (sourceDisconnected (sessions (run evs initial) ! j) \<or>
         sourceRef (run evs initial) = Some j \<and> processorRef (run evs initial) \<noteq> None) \<and>
      processorDisconnected (sessions (stopSession (run evs initial)) ! j) =
        (processorDisconnected (sessions (run evs initial) ! j) \<or>
         processorRef (run evs initial) = Some j \<and> sourceRef (run evs initial) \<noteq> None) \<and>
      inputCtxClosed (sessions (stopSession (run evs initial)) ! j) =
        (inputCtxClosed (sessions (run evs initial) ! j) \<or>
         inputAudioContextRef (run evs initial) = Some j) \<and>
      outputCtxClosed (sessions (stopSession (run evs initial)) ! j) =
        (outputCtxClosed (sessions (run evs initial) ! j) \<or>
         audioContextRef (run evs initial) = Some j)"
    using stop_releases [OF r, of j] by blast
  have rest: "sessionRef (stopSession s) = sessionRef s \<and>
   map remotePart (sessions (stopSession s)) = map remotePart (sessions s) \<and>
   stopped (stopSession (run evs initial)) \<and>
   counter (stopSession (run evs initial)) =
     (practiceCount (run evs initial),
      committedCountRef (run evs initial) +
      countPracticeInText (currentTurnTextRef (run evs initial)), []) \<and>
   list_all (\<lambda>x. \<not> sessionClosed x) (sessions (run evs initial))"
    using c sessionRef_stopSession [of s] remote_stopSession [of s] stopped_stopSession [OF r]
      counter_stopSession_ok [OF r]
    by (simp add: list_all_iff)
  from rest v rel show ?thesis by blast
qed

theorem stop_keeps_remote_session_witness:
  "sessionRef (stopSession (run [StartSession Granted, ConnectResolved 0, OnOpen 0] initial)) = Some 0 \<and>
   mediaStreamRef (stopSession (run [StartSession Granted, ConnectResolved 0, OnOpen 0] initial)) = None \<and>
   sessionPromise (sessions (stopSession (run [StartSession Granted, ConnectResolved 0, OnOpen 0] initial)) ! 0) = Fulfilled \<and>
   \<not> sessionClosed (sessions (stopSession (run [StartSession Granted, ConnectResolved 0, OnOpen 0] initial)) ! 0) \<and>
   tracksStopped (sessions (stopSession (run [StartSession Granted, ConnectResolved 0, OnOpen 0] initial)) ! 0) \<and>
   sourceDisconnected (sessions (stopSession (run [StartSession Granted, ConnectResolved 0, OnOpen 0] initial)) ! 0) \<and>
   processorDisconnected (sessions (stopSession (run [StartSession Granted, ConnectResolved 0, OnOpen 0] initial)) ! 0) \<and>
   inputCtxClosed (sessions (stopSession (run [StartSession Granted, ConnectResolved 0, OnOpen 0] initial)) ! 0) \<and>
   outputCtxClosed (sessions (stopSession (run [StartSession Granted, ConnectResolved 0, OnOpen 0] initial)) ! 0)"
proof -
  let ?evs = "[StartSession Granted, ConnectResolved 0, OnOpen 0]"
  let ?s = "run ?evs initial"
  have a: "sessionRef ?s = Some 0" "mediaStreamRef ?s = Some 0" "sourceRef ?s = Some 0"
    "processorRef ?s = Some 0" "inputAudioContextRef ?s = Some 0" "audioContextRef ?s = Some 0"
    by code_simp+
  have b: "sessions ?s = [(newSession True)\<lparr>sessionPromise := Fulfilled, handlerInstalled := True\<rparr>]"
    by code_simp
  have m: "map remotePart (sessions (stopSession ?s)) = map remotePart (sessions ?s)"
    using stop_keeps_remote_session [of ?s ?evs 0] by simp
  have c: "length (sessions (stopSession ?s)) = 1"
    using arg_cong [OF m, of length] b by simp
  have "map remotePart (sessions (stopSession ?s)) ! 0 = map remotePart (sessions ?s) ! 0"
    by (simp only: m)
  then have "remotePart (sessions (stopSession ?s) ! 0) = remotePart (sessions ?s ! 0)"
    using c b by simp
  then show ?thesis
    using stop_keeps_remote_session [of ?s ?evs 0] a b
    by (simp add: remotePart_def newSession_def stopped_def)
qed

section \<open>C7: sends and the state of the session\<close>

lemma quiet_sendPart: "sendPart x = sendPart y \<Longrightarrow> quiet x = quiet y"
  by (simp add: sendPart_def quiet_def pendingSends_def)

lemma sendPart_remotePart: "remotePart x = remotePart y \<Longrightarrow> sendPart x = sendPart y"
  by (simp add: sendPart_def remotePart_def)

lemma map_eq_nth: "map g xs = map g ys \<Longrightarrow> k < length ys \<Longrightarrow> g (xs ! k) = g (ys ! k)"
  by (metis length_map nth_map)

lemma sendPart_onmessage:
  "map sendPart (sessions (onmessage k m s)) = map sendPart (sessions s)"
proof -
  have a: "map sendPart (sessions (onAudio k x t)) = map sendPart (sessions t)" for x t
    by (simp add: onAudio_def map_updSession sendPart_def split: sum.splits)
  have b: "sessions (onTurnComplete t) = sessions t" for t
    by (simp add: onTurnComplete_def Let_def)
  have c: "sessions (onTranscription x t) = sessions t" for x t
    by (simp add: onTranscription_def setTranscript_def Let_def)
  show ?thesis by (simp add: onmessage_def Let_def a b c split: option.splits)
qed

lemma quiet_newSession: "quiet (newSession b)"
  by (simp add: quiet_def newSession_def pendingSends_def)

lemma nth_updSession_other: "j \<noteq> k \<Longrightarrow> sessions (updSession j f s) ! k = sessions s ! k"
  by (simp add: nth_updSession)

lemma nth_updSession_same:
  "k < length (sessions s) \<Longrightarrow> sessions (updSession k f s) ! k = f (sessions s ! k)"
  by (simp add: nth_updSession)

lemma quiet_updSession:
  assumes "k < length (sessions s)" "quiet (sessions s ! k)" "j = k \<Longrightarrow> quiet (f (sessions s ! k))"
  shows "quiet (sessions (updSession j f s) ! k)"
proof (cases "j = k")
  case True
  with assms show ?thesis by (simp add: nth_updSession_same)
next
  case False
  with assms show ?thesis by (simp add: nth_updSession_other)
qed

lemma quiet_resolved:
  "quiet x \<Longrightarrow>
   quiet (case sessionPromise x of
            Pending q \<Rightarrow> x\<lparr>sessionPromise := Fulfilled, sent := sent x @ q\<rparr>
          | Fulfilled \<Rightarrow> x | Rejected \<Rightarrow> x)"
  by (cases "sessionPromise x") (simp_all add: quiet_def pendingSends_def)

lemma quiet_rejected:
  "quiet x \<Longrightarrow>
   quiet (case sessionPromise x of
            Pending q \<Rightarrow> x\<lparr>sessionPromise := Rejected\<rparr>
          | Fulfilled \<Rightarrow> x | Rejected \<Rightarrow> x)"
  by (cases "sessionPromise x") (simp_all add: quiet_def pendingSends_def)

lemma sessions_startSession:
  "sessions (startSession r s) = sessions s @ [newSession (r = Granted)]"
  by (cases r) (simp_all add: startSession_def Let_def)

lemma quiet_startSession:
  assumes "k < length (sessions (startSession r s))"
    and "k < length (sessions s) \<Longrightarrow> quiet (sessions s ! k)"
  shows "quiet (sessions (startSession r s) ! k)"
proof (cases "k < length (sessions s)")
  case True
  with assms(2) show ?thesis by (simp add: sessions_startSession nth_append)
next
  case False
  with assms(1) have "k = length (sessions s)" by (simp add: sessions_startSession)
  then show ?thesis by (simp add: sessions_startSession quiet_newSession)
qed

lemma quiet_stopSession:
  assumes "k < length (sessions s)" "quiet (sessions s ! k)"
  shows "quiet (sessions (stopSession s) ! k)"
proof -
  have m: "map remotePart (sessions (stopSession s)) = map remotePart (sessions s)"
    by (rule remote_stopSession)
  have "remotePart (sessions (stopSession s) ! k) = remotePart (sessions s ! k)"
    by (rule map_eq_nth [OF m assms(1)])
  from quiet_sendPart [OF sendPart_remotePart [OF this]] assms(2) show ?thesis by simp
qed

lemma quiet_onmessage:
  assumes "k < length (sessions s)" "quiet (sessions s ! k)"
  shows "quiet (sessions (onmessage j m s) ! k)"
proof -
  have "sendPart (sessions (onmessage j m s) ! k) = sendPart (sessions s ! k)"
    by (rule map_eq_nth [OF sendPart_onmessage assms(1)])
  from quiet_sendPart [OF this] assms(2) show ?thesis by simp
qed

lemma length_sessions_step:
  "length (sessions (step e s)) =
     length (sessions s) + (case e of StartSession r \<Rightarrow> 1 | _ \<Rightarrow> 0)"
  using arg_cong [OF closed_step [of e s], of length] by (simp split: event.splits)

lemma quiet_onaudioprocess:
  assumes "k < length (sessions s)" "quiet (sessions s ! k)" "capturing j s"
  shows "quiet (sessions (onaudioprocess j f s) ! k)"
proof -
  have "handlerInstalled (sessions s ! j)" using assms(3) by (simp add: capturing_def)
  with assms(2) have "j \<noteq> k" by (auto simp: quiet_def)
  then have "sessions (onaudioprocess j f s) ! k = sessions s ! k"
    by (simp add: onaudioprocess_def nth_updSession_other split: sum.splits)
  with assms(2) show ?thesis by simp
qed

lemma quiet_onopen:
  assumes "k < length (sessions s)" "quiet (sessions s ! k)" "j \<noteq> k"
  shows "quiet (sessions (onopen j s) ! k)"
  using assms by (simp add: onopen_def nth_updSession_other)

lemma quiet_step:
  assumes k: "k < length (sessions (step e s))" and e: "e \<noteq> OnOpen k"
    and q: "k < length (sessions s) \<Longrightarrow> quiet (sessions s ! k)"
  shows "quiet (sessions (step e s) ! k)"
proof (cases e)
  case (StartSession r)
  with k q quiet_startSession [of k r s] show ?thesis by simp
next
  case StopSession
  with k length_sessions_step [of e s] have l: "k < length (sessions s)" by simp
  from quiet_stopSession [OF l q [OF l]] StopSession show ?thesis by simp
next
  case (ConnectResolved j)
  with k length_sessions_step [of e s] have l: "k < length (sessions s)" by simp
  show ?thesis
  proof (cases "connected j s")
    case True
    have "quiet (sessions (connectResolved j s) ! k)"
      unfolding connectResolved_def
      by (rule quiet_updSession [OF l q [OF l]]) (rule quiet_resolved [OF q [OF l]])
    with True ConnectResolved show ?thesis by simp
  next
    case False
    with ConnectResolved q [OF l] show ?thesis by simp
  qed
next
  case (ConnectRejected j)
  with k length_sessions_step [of e s] have l: "k < length (sessions s)" by simp
  show ?thesis
  proof (cases "connected j s")
    case True
    have "quiet (sessions (connectRejected j s) ! k)"
      unfolding connectRejected_def
      by (rule quiet_updSession [OF l q [OF l]]) (rule quiet_rejected [OF q [OF l]])
    with True ConnectRejected show ?thesis by simp
  next
    case False
    with ConnectRejected q [OF l] show ?thesis by simp
  qed
next
  case (OnOpen j)
  with k length_sessions_step [of e s] have l: "k < length (sessions s)" by simp
  from OnOpen e have "j \<noteq> k" by simp
  from quiet_onopen [OF l q [OF l] this] OnOpen q [OF l] show ?thesis by simp
next
  case (OnMessage j m)
  with k length_sessions_step [of e s] have l: "k < length (sessions s)" by simp
  from quiet_onmessage [OF l q [OF l]] OnMessage q [OF l] show ?thesis by simp
next
  case (OnClose j)
  with k length_sessions_step [of e s] have l: "k < length (sessions s)" by simp
  from OnClose q [OF l] show ?thesis by (simp add: onclose_def)
next
  case (OnError j)
  with k length_sessions_step [of e s] have l: "k < length (sessions s)" by simp
  from OnError q [OF l] show ?thesis by (simp add: onerror_def)
next
  case (AudioProcess j f)
  with k length_sessions_step [of e s] have l: "k < length (sessions s)" by simp
  show ?thesis
  proof (cases "capturing j s")
    case True
    from quiet_onaudioprocess [OF l q [OF l] True] True AudioProcess show ?thesis by simp
  next
    case False
    with AudioProcess q [OF l] show ?thesis by simp
  qed
qed

lemma run_snoc: "run (evs @ [e]) s = step e (run evs s)"
  by (simp add: run_def)

lemma quiet_run:
  "k < length (sessions (run evs initial)) \<Longrightarrow> OnOpen k \<notin> set evs \<Longrightarrow>
   quiet (sessions (run evs initial) ! k)"
proof (induction evs rule: rev_induct)
  case Nil
  then show ?case by (simp add: run_def initial_def)
next
  case (snoc e evs)
  have e: "e \<noteq> OnOpen k" and n: "OnOpen k \<notin> set evs" using snoc.prems(2) by auto
  have k: "k < length (sessions (step e (run evs initial)))"
    using snoc.prems(1) by (simp add: run_snoc)
  show ?case
    unfolding run_snoc
    by (rule quiet_step [OF k e]) (rule snoc.IH [OF _ n])
qed

lemma onaudioprocess_eq: "onaudioprocess k frame s = updSession k (chainSend (frameBlob frame)) s"
  by (simp add: onaudioprocess_def createBlob_eq frameBlob_def chainSend_def [abs_def])

lemma capturing_onerror: "capturing k (onerror j s) = capturing k s"
  by (simp add: capturing_def connected_def onerror_def)

lemma sent_connectResolved:
  "connected k s \<Longrightarrow> sessionPromise (sessions s ! k) = Pending q \<Longrightarrow>
   sent (sessions (step (ConnectResolved k) s) ! k) = sent (sessions s ! k) @ q \<and>
   sessionPromise (sessions (step (ConnectResolved k) s) ! k) = Fulfilled"
  by (simp add: connected_def connectResolved_def nth_updSession_same)

lemma frame_example: "frameBlob [Finite (1 / 2)] = \<lparr>data = js ''AEA='', mimeType = js ''audio/pcm;rate=16000''\<rparr>"
  by (simp add: frameBlob_def pcmBytes_def toIntegerTrunc_def signed16_def int16Bytes_def
        b64char_def js_def)

lemma run_eval: "run (e # evs) s = run evs (step e s)" "run [] s = s"
  by (simp_all add: run_def)

lemma after_open:
  "run [StartSession Granted, OnOpen 0] initial =
     initial\<lparr>inputAudioContextRef := Some 0, audioContextRef := Some 0, mediaStreamRef := Some 0,
              sessionRef := Some 0, sourceRef := Some 0, processorRef := Some 0,
              isRecording := True, console := [js ''Session connected''],
              sessions := [(newSession True)\<lparr>handlerInstalled := True\<rparr>]\<rparr>"
  by (simp add: run_eval startSession_def onopen_def connected_def updSession_def initial_def
        newSession_def Let_def)

lemma after_open_resolved:
  "run [StartSession Granted, ConnectResolved 0, OnOpen 0] initial =
     initial\<lparr>inputAudioContextRef := Some 0, audioContextRef := Some 0, mediaStreamRef := Some 0,
              sessionRef := Some 0, sourceRef := Some 0, processorRef := Some 0,
              isRecording := True, console := [js ''Session connected''],
              sessions := [(newSession True)\<lparr>sessionPromise := Fulfilled, handlerInstalled := True\<rparr>]\<rparr>"
  by (simp add: run_eval startSession_def onopen_def connected_def updSession_def initial_def
        connectResolved_def newSession_def Let_def)

lemma run_append: "run (evs @ evs') s = run evs' (run evs s)"
  by (simp add: run_def)

text \<open>
  Claim C7, as stated, fails. A frame captured while the session promise is pending is
  queued and sent when the promise is fulfilled; and a frame captured after the error
  callback is still handed to \<open>sendRealtimeInput\<close>, with nothing logged for it.
\<close>

theorem send_state_check_counterexample:
  "sent (sessions (run [StartSession Granted, OnOpen 0, AudioProcess 0 [Finite (1 / 2)],
                        ConnectResolved 0] initial) ! 0) =
     [\<lparr>data = js ''AEA='', mimeType = js ''audio/pcm;rate=16000''\<rparr>] \<and>
   sent (sessions (run [StartSession Granted, ConnectResolved 0, OnOpen 0, OnError 0,
                        AudioProcess 0 [Finite (1 / 2)]] initial) ! 0) =
     [\<lparr>data = js ''AEA='', mimeType = js ''audio/pcm;rate=16000''\<rparr>] \<and>
   console (run [StartSession Granted, ConnectResolved 0, OnOpen 0, OnError 0,
                 AudioProcess 0 [Finite (1 / 2)]] initial) =
     [js ''Session connected'', js ''Session error'']"
proof -
  have a: "run [StartSession Granted, ConnectResolved 0, OnOpen 0, OnError 0,
                AudioProcess 0 [Finite (1 / 2)]] initial =
           run [OnError 0, AudioProcess 0 [Finite (1 / 2)]]
             (run [StartSession Granted, ConnectResolved 0, OnOpen 0] initial)"
    using run_append [of "[StartSession Granted, ConnectResolved 0, OnOpen 0]"
        "[OnError 0, AudioProcess 0 [Finite (1 / 2)]]" initial] by simp
  have b: "run [StartSession Granted, OnOpen 0, AudioProcess 0 [Finite (1 / 2)],
                ConnectResolved 0] initial =
           run [AudioProcess 0 [Finite (1 / 2)], ConnectResolved 0]
             (run [StartSession Granted, OnOpen 0] initial)"
    using run_append [of "[StartSession Granted, OnOpen 0]"
        "[AudioProcess 0 [Finite (1 / 2)], ConnectResolved 0]" initial] by simp
  show ?thesis
    unfolding a b after_open after_open_resolved
    by (simp add: run_eval onerror_def capturing_def connected_def onaudioprocess_eq
          frame_example chainSend_def updSession_def newSession_def connectResolved_def
          initial_def)
qed

text \<open>
  Claim C7, amended. A session whose \<open>onopen\<close> has not run has sent nothing, has
  queued nothing and captures nothing. A captured frame is encoded and chained on the
  session promise, with no check of the state of the session and no signal: it is sent
  at once when the promise is fulfilled, queued when it is pending, and never sent when
  it is rejected; the queue is sent, in order, when the promise is fulfilled.
\<close>

theorem sends_only_after_open:
  "(k < length (sessions (run evs initial)) \<and> OnOpen k \<notin> set evs \<longrightarrow>
      sent (sessions (run evs initial) ! k) = [] \<and>
      pendingSends (sessions (run evs initial) ! k) = [] \<and>
      \<not> capturing k (run evs initial)) \<and>
   (capturing k s \<longrightarrow>
      step (AudioProcess k frame) s = updSession k (chainSend (frameBlob frame)) s) \<and>
   console (step (AudioProcess k frame) s) = console s \<and>
   rejections (step (AudioProcess k frame) s) = rejections s \<and>
   (connected k s \<and> sessionPromise (sessions s ! k) = Pending q \<longrightarrow>
      sent (sessions (step (ConnectResolved k) s) ! k) = sent (sessions s ! k) @ q \<and>
      sessionPromise (sessions (step (ConnectResolved k) s) ! k) = Fulfilled)"
proof -
  have "sent (sessions (run evs initial) ! k) = [] \<and>
      pendingSends (sessions (run evs initial) ! k) = [] \<and>
      \<not> capturing k (run evs initial)"
    if "k < length (sessions (run evs initial))" "OnOpen k \<notin> set evs"
    using quiet_run [OF that] by (simp add: quiet_def capturing_def)
  then show ?thesis
    using sent_connectResolved [of k s q]
    by (simp add: onaudioprocess_eq)
qed

theorem sends_only_after_open_witness:
  "sent (sessions (run [StartSession Granted, ConnectResolved 0] initial) ! 0) = [] \<and>
   pendingSends (sessions (run [StartSession Granted, ConnectResolved 0] initial) ! 0) = [] \<and>
   \<not> capturing 0 (run [StartSession Granted, ConnectResolved 0] initial) \<and>
   capturing 0 (run [StartSession Granted, OnOpen 0] initial) \<and>
   step (AudioProcess 0 [Finite (1 / 2)]) (run [StartSession Granted, OnOpen 0] initial) =
     updSession 0 (chainSend \<lparr>data = js ''AEA='', mimeType = js ''audio/pcm;rate=16000''\<rparr>)
       (run [StartSession Granted, OnOpen 0] initial)"
proof -
  have l: "0 < length (sessions (run [StartSession Granted, ConnectResolved 0] initial))"
    by (simp add: run_eval startSession_def connected_def initial_def Let_def connectResolved_def
          updSession_def newSession_def)
  have n: "OnOpen 0 \<notin> set [StartSession Granted, ConnectResolved 0]" by simp
  have c: "capturing 0 (run [StartSession Granted, OnOpen 0] initial)"
    unfolding after_open by (simp add: capturing_def connected_def newSession_def initial_def)
  show ?thesis
    using sends_only_after_open [of 0 "[StartSession Granted, ConnectResolved 0]"
        "run [StartSession Granted, OnOpen 0] initial" "[Finite (1 / 2)]"] l n c
    by (simp add: frame_example del: step.simps)
qed

section \<open>C6: the transport error\<close>

text \<open>
  Claim C6 against the code. \<open>onerror\<close> sets the error message and clears the recording
  flag, and releases nothing: the sessions and the stream, node and context refs are
  as before and the capture goes on. After a start, an open and an error, the refs
  still hold session 0 and it still captures.
\<close>

theorem transport_error_keeps_resources:
  "sessions (step (OnError k) s) = sessions s \<and>
   mediaStreamRef (step (OnError k) s) = mediaStreamRef s \<and>
   sourceRef (step (OnError k) s) = sourceRef s \<and>
   processorRef (step (OnError k) s) = processorRef s \<and>
   inputAudioContextRef (step (OnError k) s) = inputAudioContextRef s \<and>
   audioContextRef (step (OnError k) s) = audioContextRef s \<and>
   capturing j (step (OnError k) s) = capturing j s \<and>
   (connected k s \<longrightarrow>
      error (step (OnError k) s) = Some (js ''Connection error detected.'') \<and>
      \<not> isRecording (step (OnError k) s)) \<and>
   sessions (run [StartSession Granted, ConnectResolved 0, OnOpen 0, OnError 0] initial) =
     [(newSession True)\<lparr>sessionPromise := Fulfilled, handlerInstalled := True\<rparr>] \<and>
   mediaStreamRef (run [StartSession Granted, ConnectResolved 0, OnOpen 0, OnError 0] initial)
     = Some 0 \<and>
   inputAudioContextRef (run [StartSession Granted, ConnectResolved 0, OnOpen 0, OnError 0] initial)
     = Some 0 \<and>
   capturing 0 (run [StartSession Granted, ConnectResolved 0, OnOpen 0, OnError 0] initial)"
proof -
  have a: "run [StartSession Granted, ConnectResolved 0, OnOpen 0, OnError 0] initial =
           step (OnError 0) (run [StartSession Granted, ConnectResolved 0, OnOpen 0] initial)"
    using run_snoc [of "[StartSession Granted, ConnectResolved 0, OnOpen 0]" "OnError 0" initial]
    by simp
  have g: "sessions (step (OnError k) t) = sessions t \<and>
   mediaStreamRef (step (OnError k) t) = mediaStreamRef t \<and>
   sourceRef (step (OnError k) t) = sourceRef t \<and>
   processorRef (step (OnError k) t) = processorRef t \<and>
   inputAudioContextRef (step (OnError k) t) = inputAudioContextRef t \<and>
   audioContextRef (step (OnError k) t) = audioContextRef t \<and>
   capturing j (step (OnError k) t) = capturing j t \<and>
   (connected k t \<longrightarrow>
      error (step (OnError k) t) = Some (js ''Connection error detected.'') \<and>
      \<not> isRecording (step (OnError k) t))" for k j t
    by (simp add: capturing_onerror) (simp add: onerror_def)
  have c: "capturing 0 (run [StartSession Granted, ConnectResolved 0, OnOpen 0] initial)"
    unfolding after_open_resolved by (simp add: capturing_def connected_def newSession_def initial_def)
  have "sessions (step (OnError 0) (run [StartSession Granted, ConnectResolved 0, OnOpen 0] initial)) =
     [(newSession True)\<lparr>sessionPromise := Fulfilled, handlerInstalled := True\<rparr>] \<and>
   mediaStreamRef (step (OnError 0) (run [StartSession Granted, ConnectResolved 0, OnOpen 0] initial))
     = Some 0 \<and>
   inputAudioContextRef (step (OnError 0) (run [StartSession Granted, ConnectResolved 0, OnOpen 0] initial))
     = Some 0 \<and>
   capturing 0 (step (OnError 0) (run [StartSession Granted, ConnectResolved 0, OnOpen 0] initial))"
    using g [of 0 "run [StartSession Granted, ConnectResolved 0, OnOpen 0] initial" 0] c
    by (simp add: after_open_resolved del: step.simps)
  then show ?thesis using g [of k s j] unfolding a by blast
qed

theorem transport_error_keeps_resources_witness:
  "connected 0 (run [StartSession Granted, ConnectResolved 0, OnOpen 0] initial) \<and>
   error (step (OnError 0) (run [StartSession Granted, ConnectResolved 0, OnOpen 0] initial)) =
     Some (js ''Connection error detected.'') \<and>
   capturing 0 (step (OnError 0) (run [StartSession Granted, ConnectResolved 0, OnOpen 0] initial)) \<and>
   sourceRef (step (OnError 0) (run [StartSession Granted, ConnectResolved 0, OnOpen 0] initial)) = Some 0"
proof -
  let ?s = "run [StartSession Granted, ConnectResolved 0, OnOpen 0] initial"
  have c: "connected 0 ?s" "capturing 0 ?s" "sourceRef ?s = Some 0"
    unfolding after_open_resolved
    by (simp_all add: capturing_def connected_def newSession_def initial_def)
  show ?thesis
    using transport_error_keeps_resources [of 0 ?s 0] c by (simp del: step.simps)
qed

end
